theory Spec2Isabelle
  imports Complex_Main "HOL-Library.Char_ord" "HOL-Library.List_Lexorder"
begin

section \<open>Budget timeline: recurrence expansion and balance accumulation\<close>

text \<open>
  A shallow embedding of \<^verbatim>\<open>src/api.py\<close>: \<^verbatim>\<open>expand_recurring_event\<close>,
  \<^verbatim>\<open>get_events_in_range\<close> and \<^verbatim>\<open>calculate_balance_timeline\<close> of class
  \<^verbatim>\<open>BudgetAPI\<close>. The rows read from the database are a parameter (the event snapshot,
  each event with its labels resolved, as lines 252-258 build it).

  Python exceptions are values of type \<open>error\<close>; a function that can raise returns
  \<open>error + 'a\<close>. The three \<^verbatim>\<open>while\<close> loops are partial functions into \<open>option\<close>,
  where \<open>None\<close> stands for a loop that never ends; that they end is proved below.

  The parser \<^verbatim>\<open>datetime.fromisoformat\<close> is library code, and the strings it reads differ
  between versions of the library. It is a parameter \<open>fromisoformat\<close> of every function that
  calls it, so that each theorem holds whatever strings the parser reads and whatever
  datetimes it reads them as.

  Amounts and balances are exact rationals (the source uses binary floating point, whose
  rounding errors are outside this model).
\<close>

subsection \<open>The datetime library, as far as the code uses it\<close>

datatype error = TypeError | ValueError | OverflowError | IndexError

text \<open>
  A \<^verbatim>\<open>datetime\<close>: the calendar date, the time of day and the offset from UTC. The time of
  day (hour, minute, second, microsecond) is one number \<open>tod\<close>, the microseconds since
  midnight, which orders times as the four fields do. \<open>utcoffset\<close> is \<open>None\<close> for a naive
  datetime and the offset in microseconds for an aware one.
\<close>

record datetime =
  year :: int
  month :: int
  day :: int
  tod :: int
  utcoffset :: "int option"

definition day_us :: int where
  "day_us = 86400000000"

definition is_leap :: "int \<Rightarrow> bool" where
  "is_leap y = (y mod 4 = 0 \<and> (y mod 100 \<noteq> 0 \<or> y mod 400 = 0))"

text \<open>The table of month lengths, written inline in the source (lines 185, 192, 197).\<close>

definition month_lengths :: "int \<Rightarrow> int list" where
  "month_lengths y = [31, if is_leap y then 29 else 28, 31, 30, 31, 30, 31, 31, 30, 31, 30, 31]"

text \<open>
  Indexing a Python list: an index from \<open>-len\<close> up to \<open>-1\<close> is taken from the end, and
  one outside \<open>-len\<close> to \<open>len - 1\<close> raises IndexError.
\<close>

definition py_index :: "'a list \<Rightarrow> int \<Rightarrow> error + 'a" where
  "py_index xs i =
     (if 0 \<le> i \<and> i < int (length xs) then Inr (xs ! nat i)
      else if - int (length xs) \<le> i \<and> i < 0 then Inr (xs ! nat (int (length xs) + i))
      else Inl IndexError)"

definition days_in_month :: "int \<Rightarrow> int \<Rightarrow> int" where
  "days_in_month y m = month_lengths y ! nat (m - 1)"

text \<open>A calendar date of any year, and the values a \<^verbatim>\<open>datetime\<close> can hold
  (\<^verbatim>\<open>MINYEAR = 1\<close>, \<^verbatim>\<open>MAXYEAR = 9999\<close>, a time within the day, an offset of less than
  a day).\<close>

definition wf_date :: "datetime \<Rightarrow> bool" where
  "wf_date d = (1 \<le> month d \<and> month d \<le> 12 \<and> 1 \<le> day d \<and> day d \<le> days_in_month (year d) (month d))"

definition valid_datetime :: "datetime \<Rightarrow> bool" where
  "valid_datetime d =
     (1 \<le> year d \<and> year d \<le> 9999 \<and> wf_date d \<and> 0 \<le> tod d \<and> tod d < day_us
      \<and> (case utcoffset d of None \<Rightarrow> True | Some off \<Rightarrow> - day_us < off \<and> off < day_us))"

text \<open>
  The constructor \<^verbatim>\<open>datetime(year, month, day)\<close>: a naive datetime at midnight. An
  argument that does not fit a C \<^verbatim>\<open>int\<close> raises OverflowError, and a date out of range
  raises ValueError.
\<close>

definition c_int :: "int \<Rightarrow> bool" where
  "c_int n = (- 2147483648 \<le> n \<and> n \<le> 2147483647)"

definition datetime_new :: "int \<Rightarrow> int \<Rightarrow> int \<Rightarrow> error + datetime" where
  "datetime_new y m d =
     (if \<not> c_int y \<or> \<not> c_int m \<or> \<not> c_int d then Inl OverflowError
      else let r = \<lparr>year = y, month = m, day = d, tod = 0, utcoffset = None\<rparr>
           in if valid_datetime r then Inr r else Inl ValueError)"

text \<open>The day number \<^verbatim>\<open>toordinal()\<close>: 0001-01-01 is day 1.\<close>

definition days_before_year :: "int \<Rightarrow> int" where
  "days_before_year y = (y - 1) * 365 + (y - 1) div 4 - (y - 1) div 100 + (y - 1) div 400"

definition days_before_month :: "int \<Rightarrow> int \<Rightarrow> int" where
  "days_before_month y m = sum_list (take (nat (m - 1)) (month_lengths y))"

definition toordinal :: "datetime \<Rightarrow> int" where
  "toordinal d = days_before_year (year d) + days_before_month (year d) (month d) + day d"

text \<open>
  Comparison. Two naive datetimes are compared field by field: year, month, day, then the
  time of day. Two aware datetimes are compared as instants, each with its offset
  subtracted. Comparing a naive datetime with an aware one raises TypeError.
\<close>

definition naive_lt :: "datetime \<Rightarrow> datetime \<Rightarrow> bool" where
  "naive_lt a b =
     (year a < year b \<or> (year a = year b \<and> (month a < month b \<or> (month a = month b \<and>
        (day a < day b \<or> (day a = day b \<and> tod a < tod b))))))"

definition naive_eq :: "datetime \<Rightarrow> datetime \<Rightarrow> bool" where
  "naive_eq a b = (year a = year b \<and> month a = month b \<and> day a = day b \<and> tod a = tod b)"

definition instant :: "datetime \<Rightarrow> int" where
  "instant d = toordinal d * day_us + tod d - (case utcoffset d of None \<Rightarrow> 0 | Some off \<Rightarrow> off)"

definition dt_lt :: "datetime \<Rightarrow> datetime \<Rightarrow> error + bool" where
  "dt_lt a b =
     (case (utcoffset a, utcoffset b) of
        (None, None) \<Rightarrow> Inr (naive_lt a b)
      | (Some oa, Some ob) \<Rightarrow> Inr (instant a < instant b)
      | _ \<Rightarrow> Inl TypeError)"

definition dt_le :: "datetime \<Rightarrow> datetime \<Rightarrow> error + bool" where
  "dt_le a b =
     (case (utcoffset a, utcoffset b) of
        (None, None) \<Rightarrow> Inr (naive_lt a b \<or> naive_eq a b)
      | (Some oa, Some ob) \<Rightarrow> Inr (instant a \<le> instant b)
      | _ \<Rightarrow> Inl TypeError)"

text \<open>Python's \<^verbatim>\<open>min(a, b)\<close>: \<open>b\<close> only if it is strictly smaller.\<close>

definition dt_min :: "datetime \<Rightarrow> datetime \<Rightarrow> error + datetime" where
  "dt_min a b = (case dt_lt b a of Inl err \<Rightarrow> Inl err | Inr smaller \<Rightarrow> Inr (if smaller then b else a))"

text \<open>The day after and the day before; the time of day and the offset stay.\<close>

definition next_day :: "datetime \<Rightarrow> datetime" where
  "next_day d =
     (if day d < days_in_month (year d) (month d) then d\<lparr>day := day d + 1\<rparr>
      else if month d < 12 then d\<lparr>month := month d + 1, day := 1\<rparr>
      else d\<lparr>year := year d + 1, month := 1, day := 1\<rparr>)"

definition prev_day :: "datetime \<Rightarrow> datetime" where
  "prev_day d =
     (if 1 < day d then d\<lparr>day := day d - 1\<rparr>
      else if 1 < month d then d\<lparr>month := month d - 1, day := days_in_month (year d) (month d - 1)\<rparr>
      else d\<lparr>year := year d - 1, month := 12, day := 31\<rparr>)"

text \<open>The datetime \<open>n\<close> days after \<open>d\<close> (before, when \<open>n\<close> is negative), a day at a time.\<close>

function shift_days :: "int \<Rightarrow> datetime \<Rightarrow> datetime" where
  "shift_days n d =
     (if n = 0 then d
      else if 0 < n then shift_days (n - 1) (next_day d)
      else shift_days (n + 1) (prev_day d))"
  by pat_completeness auto
termination
  by (relation "measure (\<lambda>(n, d). nat \<bar>n\<bar>)") auto

declare shift_days.simps [simp del]

text \<open>
  \<^verbatim>\<open>d + timedelta(days=n)\<close>: the same time \<open>n\<close> days away, OverflowError when it leaves
  the years 1 to 9999 (a \<^verbatim>\<open>timedelta\<close> too large to build raises OverflowError as well).
\<close>

definition add_days :: "datetime \<Rightarrow> int \<Rightarrow> error + datetime" where
  "add_days d n =
     (let r = shift_days n d
      in if 1 \<le> year r \<and> year r \<le> 9999 then Inr r else Inl OverflowError)"


subsection \<open>Date strings\<close>

text \<open>
  \<^verbatim>\<open>strftime('%Y-%m-%d')\<close>: month and day are written with two digits, and the year
  with the digits it has, as the C library under the interpreter writes it: the year 999
  is \<^verbatim>\<open>999\<close>, not \<^verbatim>\<open>0999\<close>.
\<close>

definition digit_char :: "int \<Rightarrow> char" where
  "digit_char k = char_of (nat (48 + k))"

definition pad2 :: "int \<Rightarrow> string" where
  "pad2 n = [digit_char (n div 10 mod 10), digit_char (n mod 10)]"

definition show_year :: "int \<Rightarrow> string" where
  "show_year y =
     (if y < 10 then [digit_char y]
      else if y < 100 then [digit_char (y div 10), digit_char (y mod 10)]
      else if y < 1000 then [digit_char (y div 100), digit_char (y div 10 mod 10), digit_char (y mod 10)]
      else [digit_char (y div 1000), digit_char (y div 100 mod 10), digit_char (y div 10 mod 10),
            digit_char (y mod 10)])"

definition strftime :: "datetime \<Rightarrow> string" where
  "strftime d = show_year (year d) @ ''-'' @ pad2 (month d) @ ''-'' @ pad2 (day d)"

subsection \<open>Events and occurrences\<close>

text \<open>A row of \<^verbatim>\<open>account_events\<close> with its labels; a NULL column is \<open>None\<close>.\<close>

record event =
  event_id :: int
  description :: string
  amount :: rat
  event_date :: "string option"
  is_recurring :: bool
  recurrence_pattern :: "string option"
  recurrence_interval :: "int option"
  recurrence_start :: "string option"
  recurrence_end :: "string option"
  comment :: "string option"
  labels :: "string list"

record occurrence =
  occ_id :: int
  occ_description :: string
  occ_amount :: rat
  occ_date :: string
  occ_comment :: "string option"
  occ_is_recurring :: bool
  occ_labels :: "string list"

subsection \<open>expand_recurring_event\<close>

text \<open>
  The chain \<^verbatim>\<open>if pattern == 'daily': ... else: break\<close> that computes the next
  occurrence. The source has it twice, word for word (lines 174-200 and 216-242).
  \<open>None\<close> is the \<^verbatim>\<open>break\<close> of an unknown pattern.
\<close>

definition add_months :: "datetime \<Rightarrow> int \<Rightarrow> error + datetime" where
  "add_months current k =
     (let month0 = month current + k;
          year' = year current + (month0 - 1) div 12;
          month' = ((month0 - 1) mod 12) + 1
      in case py_index (month_lengths year') (month' - 1) of
           Inl err \<Rightarrow> Inl err
         | Inr len \<Rightarrow> datetime_new year' month' (min (day current) len))"

definition add_years :: "datetime \<Rightarrow> int \<Rightarrow> error + datetime" where
  "add_years current k =
     (let year' = year current + k;
          month' = month current
      in case py_index (month_lengths year') (month' - 1) of
           Inl err \<Rightarrow> Inl err
         | Inr len \<Rightarrow> datetime_new year' month' (min (day current) len))"

definition advance :: "string option \<Rightarrow> int \<Rightarrow> datetime \<Rightarrow> (error + datetime) option" where
  "advance pattern interval current =
     (if pattern = Some ''daily'' then Some (add_days current interval)
      else if pattern = Some ''weekly'' then Some (add_days current (7 * interval))
      else if pattern = Some ''biweekly'' then Some (add_days current (7 * 2))
      else if pattern = Some ''monthly'' then Some (add_months current interval)
      else if pattern = Some ''quarterly'' then Some (add_months current (3 * interval))
      else if pattern = Some ''yearly'' then Some (add_years current interval)
      else None)"

text \<open>
  The fast-forward loop (lines 172-200); it returns the cursor. The test
  \<^verbatim>\<open>current < start_date and current <= rec_end\<close> evaluates the second comparison only
  when the first is true, and either can raise.
\<close>

partial_function (option) fast_forward ::
  "string option \<Rightarrow> int \<Rightarrow> datetime \<Rightarrow> datetime \<Rightarrow> datetime \<Rightarrow> (error + datetime) option" where
  "fast_forward pattern interval start_date rec_end current =
     (case dt_lt current start_date of
        Inl err \<Rightarrow> Some (Inl err)
      | Inr before_start \<Rightarrow>
          if \<not> before_start then Some (Inr current)
          else (case dt_le current rec_end of
                  Inl err \<Rightarrow> Some (Inl err)
                | Inr recurring_still \<Rightarrow>
                    if \<not> recurring_still then Some (Inr current)
                    else (case advance pattern interval current of
                            None \<Rightarrow> Some (Inr current)
                          | Some (Inl err) \<Rightarrow> Some (Inl err)
                          | Some (Inr nxt) \<Rightarrow>
                              fast_forward pattern interval start_date rec_end nxt)))"

declare fast_forward.simps [code]

definition make_occurrence :: "event \<Rightarrow> datetime \<Rightarrow> occurrence" where
  "make_occurrence ev current =
     \<lparr>occ_id = event_id ev, occ_description = description ev, occ_amount = amount ev,
      occ_date = strftime current, occ_comment = comment ev, occ_is_recurring = True,
      occ_labels = labels ev\<rparr>"

text \<open>
  The emission loop (lines 203-242). Its test \<^verbatim>\<open>current <= min(rec_end, end_date)\<close>
  computes the minimum at every turn; \<^verbatim>\<open>current >= start_date\<close> is the comparison
  \<open>start_date \<le> current\<close>.
\<close>

partial_function (option) emit_loop ::
  "event \<Rightarrow> string option \<Rightarrow> int \<Rightarrow> datetime \<Rightarrow> datetime \<Rightarrow> datetime \<Rightarrow> datetime
     \<Rightarrow> occurrence list \<Rightarrow> (error + occurrence list) option" where
  "emit_loop ev pattern interval start_date end_date rec_end current occurrences =
     (case dt_min rec_end end_date of
        Inl err \<Rightarrow> Some (Inl err)
      | Inr bound \<Rightarrow>
          (case dt_le current bound of
             Inl err \<Rightarrow> Some (Inl err)
           | Inr in_window \<Rightarrow>
               if \<not> in_window then Some (Inr occurrences)
               else (case dt_le start_date current of
                       Inl err \<Rightarrow> Some (Inl err)
                     | Inr started \<Rightarrow>
                         (let occurrences' =
                                (if started then occurrences @ [make_occurrence ev current]
                                 else occurrences)
                          in case advance pattern interval current of
                               None \<Rightarrow> Some (Inr occurrences')
                             | Some (Inl err) \<Rightarrow> Some (Inl err)
                             | Some (Inr nxt) \<Rightarrow>
                                 emit_loop ev pattern interval start_date end_date rec_end nxt
                                   occurrences'))))"

declare emit_loop.simps [code]

text \<open>
  \<^verbatim>\<open>datetime.fromisoformat(None)\<close> raises TypeError;
  \<^verbatim>\<open>event['recurrence_end']\<close> is used only when truthy (neither NULL nor empty);
  \<^verbatim>\<open>event['recurrence_interval'] or 1\<close> replaces NULL and 0 by 1.
\<close>

definition parse_rec_end ::
  "(string \<Rightarrow> error + datetime) \<Rightarrow> event \<Rightarrow> datetime \<Rightarrow> error + datetime" where
  "parse_rec_end fromisoformat ev end_date =
     (case recurrence_end ev of
        None \<Rightarrow> Inr end_date
      | Some s \<Rightarrow> if s = [] then Inr end_date else fromisoformat s)"

definition interval_or_1 :: "event \<Rightarrow> int" where
  "interval_or_1 ev = (case recurrence_interval ev of None \<Rightarrow> 1 | Some i \<Rightarrow> if i = 0 then 1 else i)"

definition expand_recurring_event ::
  "(string \<Rightarrow> error + datetime) \<Rightarrow> event \<Rightarrow> datetime \<Rightarrow> datetime
     \<Rightarrow> (error + occurrence list) option" where
  "expand_recurring_event fromisoformat ev start_date end_date =
     (case recurrence_start ev of
        None \<Rightarrow> Some (Inl TypeError)
      | Some s \<Rightarrow>
          (case fromisoformat s of
             Inl err \<Rightarrow> Some (Inl err)
           | Inr rec_start \<Rightarrow>
               (case parse_rec_end fromisoformat ev end_date of
                  Inl err \<Rightarrow> Some (Inl err)
                | Inr rec_end \<Rightarrow>
                    (let pattern = recurrence_pattern ev;
                         interval = interval_or_1 ev
                     in case fast_forward pattern interval start_date rec_end rec_start of
                          None \<Rightarrow> None
                        | Some (Inl err) \<Rightarrow> Some (Inl err)
                        | Some (Inr current) \<Rightarrow>
                            emit_loop ev pattern interval start_date end_date rec_end
                              current []))))"

subsection \<open>get_events_in_range\<close>

text \<open>
  The label filter (lines 269-271): with a non-empty filter, an event none of whose
  labels is in the filter is skipped. \<^verbatim>\<open>if label_filter\<close> is false for None and for [].
\<close>

definition label_skipped :: "string list option \<Rightarrow> event \<Rightarrow> bool" where
  "label_skipped label_filter ev =
     (case label_filter of
        None \<Rightarrow> False
      | Some lf \<Rightarrow> lf \<noteq> [] \<and> \<not> list_ex (\<lambda>label. label \<in> set (labels ev)) lf)"

text \<open>
  A one-off event (lines 279-290): the occurrence carries the stored date string. The
  chained comparison \<^verbatim>\<open>start_dt <= event_dt <= end_dt\<close> evaluates its second half only
  when the first is true.
\<close>

definition one_off_occurrence :: "event \<Rightarrow> string \<Rightarrow> occurrence" where
  "one_off_occurrence ev s =
     \<lparr>occ_id = event_id ev, occ_description = description ev, occ_amount = amount ev,
      occ_date = s, occ_comment = comment ev, occ_is_recurring = False, occ_labels = labels ev\<rparr>"

definition one_off_event ::
  "(string \<Rightarrow> error + datetime) \<Rightarrow> event \<Rightarrow> datetime \<Rightarrow> datetime \<Rightarrow> error + occurrence list" where
  "one_off_event fromisoformat ev start_dt end_dt =
     (case event_date ev of
        None \<Rightarrow> Inr []
      | Some s \<Rightarrow>
          if s = [] then Inr []
          else (case fromisoformat s of
                  Inl err \<Rightarrow> Inl err
                | Inr event_dt \<Rightarrow>
                    (case dt_le start_dt event_dt of
                       Inl err \<Rightarrow> Inl err
                     | Inr started \<Rightarrow>
                         if \<not> started then Inr []
                         else (case dt_le event_dt end_dt of
                                 Inl err \<Rightarrow> Inl err
                               | Inr in_window \<Rightarrow>
                                   if in_window then Inr [one_off_occurrence ev s] else Inr []))))"

text \<open>The loop over the events (lines 267-290); an exception ends it.\<close>

fun collect_occurrences ::
  "(string \<Rightarrow> error + datetime) \<Rightarrow> string list option \<Rightarrow> datetime \<Rightarrow> datetime \<Rightarrow> event list
     \<Rightarrow> occurrence list \<Rightarrow> (error + occurrence list) option" where
  "collect_occurrences fromisoformat label_filter start_dt end_dt [] all_occurrences =
     Some (Inr all_occurrences)"
| "collect_occurrences fromisoformat label_filter start_dt end_dt (ev # evs) all_occurrences =
     (if label_skipped label_filter ev then
        collect_occurrences fromisoformat label_filter start_dt end_dt evs all_occurrences
      else if is_recurring ev then
        (case expand_recurring_event fromisoformat ev start_dt end_dt of
           None \<Rightarrow> None
         | Some (Inl err) \<Rightarrow> Some (Inl err)
         | Some (Inr occurrences) \<Rightarrow>
             collect_occurrences fromisoformat label_filter start_dt end_dt evs
               (all_occurrences @ occurrences))
      else
        (case one_off_event fromisoformat ev start_dt end_dt of
           Inl err \<Rightarrow> Some (Inl err)
         | Inr occurrences \<Rightarrow>
             collect_occurrences fromisoformat label_filter start_dt end_dt evs
               (all_occurrences @ occurrences)))"

text \<open>The result is sorted by the date string; Python's sort is stable, as \<open>sort_key\<close> is.\<close>

definition get_events_in_range ::
  "(string \<Rightarrow> error + datetime) \<Rightarrow> event list \<Rightarrow> string \<Rightarrow> string \<Rightarrow> string list option
     \<Rightarrow> (error + occurrence list) option" where
  "get_events_in_range fromisoformat db start_date end_date label_filter =
     (case fromisoformat start_date of
        Inl err \<Rightarrow> Some (Inl err)
      | Inr start_dt \<Rightarrow>
          (case fromisoformat end_date of
             Inl err \<Rightarrow> Some (Inl err)
           | Inr end_dt \<Rightarrow>
               (case collect_occurrences fromisoformat label_filter start_dt end_dt db [] of
                  None \<Rightarrow> None
                | Some (Inl err) \<Rightarrow> Some (Inl err)
                | Some (Inr all_occurrences) \<Rightarrow> Some (Inr (sort_key occ_date all_occurrences)))))"

subsection \<open>calculate_balance_timeline\<close>

record timeline_point =
  tp_date :: string
  tp_balance :: rat

record timeline_result =
  timeline :: "timeline_point list"
  events :: "occurrence list"
  starting_balance :: rat
  ending_balance :: rat

text \<open>\<^verbatim>\<open>round(x, 2)\<close>, rounding a tie to the even neighbour.\<close>

definition round2 :: "rat \<Rightarrow> rat" where
  "round2 x =
     (let s = x * 100; f = \<lfloor>s\<rfloor>; r = s - of_int f
      in of_int (if r < 1 / 2 then f else if 1 / 2 < r then f + 1
                 else if even f then f else f + 1) / 100)"

text \<open>Grouping the occurrences by date string (lines 310-315).\<close>

fun group_by_date ::
  "occurrence list \<Rightarrow> (string \<rightharpoonup> occurrence list) \<Rightarrow> (string \<rightharpoonup> occurrence list)" where
  "group_by_date [] events_by_date = events_by_date"
| "group_by_date (ev # evs) events_by_date =
     group_by_date evs
       (case events_by_date (occ_date ev) of
          None \<Rightarrow> events_by_date(occ_date ev \<mapsto> [ev])
        | Some l \<Rightarrow> events_by_date(occ_date ev \<mapsto> l @ [ev]))"

text \<open>Applying the events of one date (lines 322-324).\<close>

definition apply_events :: "(string \<rightharpoonup> occurrence list) \<Rightarrow> string \<Rightarrow> rat \<Rightarrow> rat" where
  "apply_events events_by_date date_str current_balance =
     (case events_by_date date_str of
        None \<Rightarrow> current_balance
      | Some l \<Rightarrow> fold (\<lambda>ev b. b + occ_amount ev) l current_balance)"

text \<open>The loop over the days (lines 318-331); it returns the timeline and the balance.\<close>

partial_function (option) walk_days ::
  "(string \<rightharpoonup> occurrence list) \<Rightarrow> datetime \<Rightarrow> datetime \<Rightarrow> rat \<Rightarrow> timeline_point list
     \<Rightarrow> (error + timeline_point list \<times> rat) option" where
  "walk_days events_by_date end_dt current_date current_balance points =
     (case dt_le current_date end_dt of
        Inl err \<Rightarrow> Some (Inl err)
      | Inr in_window \<Rightarrow>
          if \<not> in_window then Some (Inr (points, current_balance))
          else (let date_str = strftime current_date;
                    current_balance' = apply_events events_by_date date_str current_balance;
                    points' = points @ [\<lparr>tp_date = date_str, tp_balance = round2 current_balance'\<rparr>]
                in case add_days current_date 1 of
                     Inl err \<Rightarrow> Some (Inl err)
                   | Inr nxt \<Rightarrow> walk_days events_by_date end_dt nxt current_balance' points'))"

declare walk_days.simps [code]

definition calculate_balance_timeline ::
  "(string \<Rightarrow> error + datetime) \<Rightarrow> event list \<Rightarrow> string \<Rightarrow> string \<Rightarrow> rat \<Rightarrow> string list option
     \<Rightarrow> (error + timeline_result) option" where
  "calculate_balance_timeline fromisoformat db start_date end_date starting_bal label_filter =
     (case get_events_in_range fromisoformat db start_date end_date label_filter of
        None \<Rightarrow> None
      | Some (Inl err) \<Rightarrow> Some (Inl err)
      | Some (Inr evs) \<Rightarrow>
          (case fromisoformat start_date of
             Inl err \<Rightarrow> Some (Inl err)
           | Inr start_dt \<Rightarrow>
               (case fromisoformat end_date of
                  Inl err \<Rightarrow> Some (Inl err)
                | Inr end_dt \<Rightarrow>
                    (case walk_days (group_by_date evs Map.empty) end_dt start_dt starting_bal [] of
                       None \<Rightarrow> None
                     | Some (Inl err) \<Rightarrow> Some (Inl err)
                     | Some (Inr (points, current_balance)) \<Rightarrow>
                         Some (Inr \<lparr>timeline = points, events = evs, starting_balance = starting_bal,
                                    ending_balance = round2 current_balance\<rparr>)))))"

subsection \<open>Reading results, and example inputs\<close>

text \<open>The date strings of the occurrences of a result that is not an exception.\<close>

definition occurrence_dates :: "(error + occurrence list) option \<Rightarrow> string list option" where
  "occurrence_dates r = (case r of Some (Inr occs) \<Rightarrow> Some (map occ_date occs) | _ \<Rightarrow> None)"


text \<open>A naive datetime at midnight, and one at a time of day.\<close>

definition ymd :: "int \<Rightarrow> int \<Rightarrow> int \<Rightarrow> datetime" where
  "ymd y m d = \<lparr>year = y, month = m, day = d, tod = 0, utcoffset = None\<rparr>"


text \<open>
  For the examples, the parser is given by the strings it is asked to read there, each with
  the datetime that \<^verbatim>\<open>datetime.fromisoformat\<close> returns for it.
\<close>

definition parser_of :: "(string \<times> datetime) list \<Rightarrow> string \<Rightarrow> error + datetime" where
  "parser_of table s = (case map_of table s of None \<Rightarrow> Inl ValueError | Some d \<Rightarrow> Inr d)"

text \<open>The parser returns values that a \<^verbatim>\<open>datetime\<close> can hold.\<close>

definition parser_ok :: "(string \<Rightarrow> error + datetime) \<Rightarrow> bool" where
  "parser_ok fromisoformat = (\<forall>s d. fromisoformat s = Inr d \<longrightarrow> valid_datetime d)"

text \<open>A recurring event, given its pattern, interval and start; and a one-off event.\<close>

definition recurring :: "string \<Rightarrow> int option \<Rightarrow> string option \<Rightarrow> rat \<Rightarrow> event" where
  "recurring pattern interval start amt =
     \<lparr>event_id = 1, description = ''recurring'', amount = amt, event_date = None,
      is_recurring = True, recurrence_pattern = Some pattern, recurrence_interval = interval,
      recurrence_start = start, recurrence_end = None, comment = None, labels = []\<rparr>"

definition one_off :: "string \<Rightarrow> rat \<Rightarrow> string list \<Rightarrow> event" where
  "one_off date amt ls =
     \<lparr>event_id = 2, description = ''one-off'', amount = amt, event_date = Some date,
      is_recurring = False, recurrence_pattern = None, recurrence_interval = Some 1,
      recurrence_start = None, recurrence_end = None, comment = None, labels = ls\<rparr>"

subsection \<open>Orders and variants used in the proofs\<close>


text \<open>An occurrence \<open>x\<close> that the event \<open>ev\<close> yields at a datetime within the window.\<close>

definition produced_by ::
  "(string \<Rightarrow> error + datetime) \<Rightarrow> datetime \<Rightarrow> datetime \<Rightarrow> event \<Rightarrow> occurrence \<Rightarrow> bool" where
  "produced_by fromisoformat start_dt end_dt ev x =
     (\<exists>d. valid_datetime d \<and> dt_le start_dt d = Inr True \<and> dt_le d end_dt = Inr True
        \<and> (if is_recurring ev then x = make_occurrence ev d
            else event_date ev = Some (occ_date x) \<and> fromisoformat (occ_date x) = Inr d
                 \<and> x = one_off_occurrence ev (occ_date x)))"

text \<open>The order of the calendar dates alone, whatever the time of day and the offset.\<close>

definition date_lt :: "datetime \<Rightarrow> datetime \<Rightarrow> bool" where
  "date_lt a b = (year a < year b \<or> (year a = year b \<and> (month a < month b \<or> (month a = month b \<and> day a < day b))))"

definition date_le :: "datetime \<Rightarrow> datetime \<Rightarrow> bool" where
  "date_le a b = (date_lt a b \<or> (year a = year b \<and> month a = month b \<and> day a = day b))"

text \<open>The fields by which two naive datetimes are compared, in the order of comparison.\<close>

definition naive_key :: "datetime \<Rightarrow> int list" where
  "naive_key d = [year d, month d, day d, tod d]"

text \<open>
  A number that orders calendar dates as \<open>date_lt\<close> does; the cursor of each loop moves
  monotonically in it between the bounds of the years 1 to 9999.
\<close>

definition date_rank :: "datetime \<Rightarrow> int" where
  "date_rank d = (year d * 12 + month d) * 31 + day d"

text \<open>
  The variant of the two loops of \<open>expand_recurring_event\<close>: the cursor moves forward when
  the interval is positive or the pattern is biweekly, and backward otherwise.
\<close>

definition loop_variant :: "string option \<Rightarrow> int \<Rightarrow> datetime \<Rightarrow> nat" where
  "loop_variant pattern interval d =
     (if pattern = Some ''biweekly'' \<or> 0 < interval then nat (4000000 - date_rank d)
      else nat (date_rank d))"

section \<open>Calendar arithmetic\<close>

lemma month_cases:
  fixes m :: int
  assumes "1 \<le> m" "m \<le> 12"
  shows "m = 1 \<or> m = 2 \<or> m = 3 \<or> m = 4 \<or> m = 5 \<or> m = 6 \<or> m = 7 \<or> m = 8 \<or> m = 9 \<or> m = 10 \<or> m = 11 \<or> m = 12"
  using assms by arith

lemma days_in_month_simps:
  "days_in_month y 1 = 31" "days_in_month y 2 = (if is_leap y then 29 else 28)"
  "days_in_month y 3 = 31" "days_in_month y 4 = 30" "days_in_month y 5 = 31"
  "days_in_month y 6 = 30" "days_in_month y 7 = 31" "days_in_month y 8 = 31"
  "days_in_month y 9 = 30" "days_in_month y 10 = 31" "days_in_month y 11 = 30"
  "days_in_month y 12 = 31"
  by (simp_all add: days_in_month_def month_lengths_def)

lemma days_before_month_simps:
  "days_before_month y 1 = 0" "days_before_month y 2 = 31"
  "days_before_month y 3 = (if is_leap y then 60 else 59)"
  "days_before_month y 4 = (if is_leap y then 91 else 90)"
  "days_before_month y 5 = (if is_leap y then 121 else 120)"
  "days_before_month y 6 = (if is_leap y then 152 else 151)"
  "days_before_month y 7 = (if is_leap y then 182 else 181)"
  "days_before_month y 8 = (if is_leap y then 213 else 212)"
  "days_before_month y 9 = (if is_leap y then 244 else 243)"
  "days_before_month y 10 = (if is_leap y then 274 else 273)"
  "days_before_month y 11 = (if is_leap y then 305 else 304)"
  "days_before_month y 12 = (if is_leap y then 335 else 334)"
  by (simp_all add: days_before_month_def month_lengths_def eval_nat_numeral)

lemma days_in_month_bounds:
  assumes "1 \<le> m" "m \<le> 12"
  shows "28 \<le> days_in_month y m \<and> days_in_month y m \<le> 31"
  using month_cases[OF assms] by (auto simp: days_in_month_simps)

lemma days_before_month_step:
  assumes "1 \<le> m" "m < 12"
  shows "days_before_month y (m + 1) = days_before_month y m + days_in_month y m"
proof -
  have "m = 1 \<or> m = 2 \<or> m = 3 \<or> m = 4 \<or> m = 5 \<or> m = 6 \<or> m = 7 \<or> m = 8 \<or> m = 9 \<or> m = 10 \<or> m = 11"
    using assms by arith
  then show ?thesis
    by (auto simp: days_in_month_simps days_before_month_simps)
qed

lemma mod_400_100: "(y::int) mod 400 = 0 \<Longrightarrow> y mod 100 = 0"
  using mod_mod_cancel[of 100 400 y] by simp

lemma mod_100_4: "(y::int) mod 100 = 0 \<Longrightarrow> y mod 4 = 0"
  using mod_mod_cancel[of 4 100 y] by simp

lemma div_pred:
  fixes y k :: int
  assumes "0 < k"
  shows "y div k = (y - 1) div k + (if y mod k = 0 then 1 else 0)"
proof (cases "y mod k = 0")
  case True
  have "k * (y div k) = y"
    using True mult_div_mod_eq[of k y] by simp
  then have "k * (y div k - 1) + (k - 1) = y - 1"
    by (simp only: right_diff_distrib mult_1_right)
  then have "(y - 1) div k = y div k - 1"
    using assms int_div_pos_eq[of "y - 1" k "y div k - 1" "k - 1"] by simp
  with True show ?thesis by simp
next
  case False
  have "0 \<le> y mod k" "y mod k < k" using assms by simp_all
  with False have r: "0 \<le> y mod k - 1" "y mod k - 1 < k" by simp_all
  have "k * (y div k) + y mod k = y"
    by (rule mult_div_mod_eq)
  then have "y - 1 = k * (y div k) + (y mod k - 1)"
    by linarith
  then have "(y - 1) div k = y div k"
    using r int_div_pos_eq[of "y - 1" k "y div k" "y mod k - 1"] by simp
  with False show ?thesis by simp
qed

lemma days_before_year_step:
  "days_before_year (y + 1) = days_before_year y + (if is_leap y then 366 else 365)"
proof -
  define e4 :: int where "e4 = (if y mod 4 = 0 then 1 else 0)"
  define e100 :: int where "e100 = (if y mod 100 = 0 then 1 else 0)"
  define e400 :: int where "e400 = (if y mod 400 = 0 then 1 else 0)"
  define p4 where "p4 = y div 4"
  define p100 where "p100 = y div 100"
  define p400 where "p400 = y div 400"
  define q4 where "q4 = (y - 1) div 4"
  define q100 where "q100 = (y - 1) div 100"
  define q400 where "q400 = (y - 1) div 400"
  have a: "p4 = q4 + e4"
    unfolding e4_def p4_def q4_def by (rule div_pred) simp
  have b: "p100 = q100 + e100"
    unfolding e100_def p100_def q100_def by (rule div_pred) simp
  have c: "p400 = q400 + e400"
    unfolding e400_def p400_def q400_def by (rule div_pred) simp
  have s: "days_before_year (y + 1) = y * 365 + p4 - p100 + p400"
    by (simp add: days_before_year_def p4_def p100_def p400_def)
  have t: "days_before_year y = (y - 1) * 365 + q4 - q100 + q400"
    by (simp only: days_before_year_def q4_def q100_def q400_def)
  have main: "days_before_year (y + 1) = days_before_year y + 365 + e4 - e100 + e400"
    unfolding s t a b c by (simp add: algebra_simps)
  have leap: "e4 - e100 + e400 = (if is_leap y then 1 else 0)"
  proof (cases "y mod 4 = 0")
    case False
    then have "y mod 100 \<noteq> 0" "y mod 400 \<noteq> 0"
      using mod_400_100[of y] mod_100_4[of y] by auto
    with False show ?thesis by (simp add: e4_def e100_def e400_def is_leap_def)
  next
    case True
    show ?thesis
    proof (cases "y mod 100 = 0")
      case False
      then have "y mod 400 \<noteq> 0" using mod_400_100[of y] by auto
      with True False show ?thesis by (simp add: e4_def e100_def e400_def is_leap_def)
    next
      case h: True
      with True show ?thesis by (simp add: e4_def e100_def e400_def is_leap_def)
    qed
  qed
  show ?thesis
  proof (cases "is_leap y")
    case True
    with main leap show ?thesis by simp
  next
    case False
    with main leap show ?thesis by simp
  qed
qed

lemma wf_next_day: "wf_date d \<Longrightarrow> wf_date (next_day d)"
  using days_in_month_bounds[of "month d + 1" "year d"]
  by (auto simp: wf_date_def next_day_def days_in_month_simps)

lemma next_day_gt: "wf_date d \<Longrightarrow> date_lt d (next_day d)"
  by (auto simp: wf_date_def next_day_def date_lt_def)


lemma toordinal_next_day:
  assumes "wf_date d"
  shows "toordinal (next_day d) = toordinal d + 1"
proof (cases "day d < days_in_month (year d) (month d)")
  case True
  then show ?thesis by (simp add: next_day_def toordinal_def)
next
  case False
  with assms have eq: "day d = days_in_month (year d) (month d)"
    by (simp add: wf_date_def)
  show ?thesis
  proof (cases "month d < 12")
    case True
    with assms have "days_before_month (year d) (month d + 1) = days_before_month (year d) (month d) + days_in_month (year d) (month d)"
      by (intro days_before_month_step) (simp_all add: wf_date_def)
    with False True eq show ?thesis by (simp add: next_day_def toordinal_def)
  next
    case m12: False
    with assms have m: "month d = 12" by (simp add: wf_date_def)
    from False m12 have n: "next_day d = d\<lparr>year := year d + 1, month := 1, day := 1\<rparr>"
      by (simp add: next_day_def)
    have "toordinal (next_day d) = days_before_year (year d + 1) + 1"
      unfolding n by (simp add: toordinal_def days_before_month_simps)
    also have "\<dots> = days_before_year (year d) + (if is_leap (year d) then 366 else 365) + 1"
      by (simp only: days_before_year_step)
    also have "\<dots> = toordinal d + 1"
      using eq m by (simp add: toordinal_def days_before_month_simps days_in_month_simps)
    finally show ?thesis .
  qed
qed

lemma wf_prev_day: "wf_date d \<Longrightarrow> wf_date (prev_day d)"
  using days_in_month_bounds[of "month d - 1" "year d"]
  by (auto simp: wf_date_def prev_day_def days_in_month_simps)

lemma prev_day_lt: "wf_date d \<Longrightarrow> date_lt (prev_day d) d"
  by (auto simp: wf_date_def prev_day_def date_lt_def)

lemma next_prev_day:
  assumes "wf_date d"
  shows "next_day (prev_day d) = d"
proof (cases "1 < day d")
  case True
  with assms show ?thesis by (simp add: prev_day_def next_day_def wf_date_def)
next
  case False
  with assms have d1: "day d = 1" by (simp add: wf_date_def)
  show ?thesis
  proof (cases "1 < month d")
    case True
    with False have p: "prev_day d = d\<lparr>month := month d - 1, day := days_in_month (year d) (month d - 1)\<rparr>"
      by (simp add: prev_day_def)
    from True assms have "month d - 1 < 12" by (simp add: wf_date_def)
    then show ?thesis unfolding p using d1 by (simp add: next_day_def)
  next
    case m: False
    with assms have m1: "month d = 1" by (simp add: wf_date_def)
    from False m have p: "prev_day d = d\<lparr>year := year d - 1, month := 12, day := 31\<rparr>"
      by (simp add: prev_day_def)
    show ?thesis unfolding p using d1 m1 by (simp add: next_day_def days_in_month_simps)
  qed
qed

lemma toordinal_prev_day:
  assumes "wf_date d"
  shows "toordinal (prev_day d) = toordinal d - 1"
  using toordinal_next_day[OF wf_prev_day[OF assms]] next_prev_day[OF assms] by simp

lemma wf_date_bounds:
  assumes "wf_date d"
  shows "1 \<le> month d" "month d \<le> 12" "1 \<le> day d" "day d \<le> 31"
  using assms days_in_month_bounds[of "month d" "year d"] by (auto simp: wf_date_def)

lemma date_rank_less:
  assumes "wf_date a" "wf_date b"
  shows "date_lt a b \<longleftrightarrow> date_rank a < date_rank b"
  using wf_date_bounds[OF assms(1)] wf_date_bounds[OF assms(2)]
  unfolding date_lt_def date_rank_def by auto

lemma date_rank_le:
  assumes "wf_date a" "wf_date b"
  shows "date_le a b \<longleftrightarrow> date_rank a \<le> date_rank b"
  using wf_date_bounds[OF assms(1)] wf_date_bounds[OF assms(2)]
  unfolding date_le_def date_lt_def date_rank_def by auto

lemma date_rank_range:
  assumes "valid_datetime d"
  shows "0 < date_rank d" "date_rank d < 4000000"
  using assms wf_date_bounds[of d] unfolding valid_datetime_def date_rank_def by auto

lemma date_lt_trans: "date_lt a b \<Longrightarrow> date_lt b c \<Longrightarrow> date_lt a c"
  unfolding date_lt_def by auto

lemma date_le_refl: "date_le a a"
  by (simp add: date_le_def)

lemma date_le_lt_trans: "date_le a b \<Longrightarrow> date_lt b c \<Longrightarrow> date_lt a c"
  unfolding date_le_def date_lt_def by auto

lemma date_lt_le_trans: "date_lt a b \<Longrightarrow> date_le b c \<Longrightarrow> date_lt a c"
  unfolding date_le_def date_lt_def by auto

lemma date_le_trans: "date_le a b \<Longrightarrow> date_le b c \<Longrightarrow> date_le a c"
  unfolding date_le_def date_lt_def by auto

lemma date_lt_imp_le: "date_lt a b \<Longrightarrow> date_le a b"
  by (simp add: date_le_def)

lemma date_not_le: "\<not> date_le a b \<longleftrightarrow> date_lt b a"
  unfolding date_le_def date_lt_def by auto


lemma date_le_antisym:
  "date_le a b \<Longrightarrow> date_le b a \<Longrightarrow> year a = year b \<and> month a = month b \<and> day a = day b"
  unfolding date_le_def date_lt_def by auto

lemma shift_days_props:
  "wf_date d \<Longrightarrow>
     wf_date (shift_days n d) \<and> toordinal (shift_days n d) = toordinal d + n
     \<and> tod (shift_days n d) = tod d \<and> utcoffset (shift_days n d) = utcoffset d
     \<and> (0 \<le> n \<longrightarrow> date_le d (shift_days n d)) \<and> (0 < n \<longrightarrow> date_lt d (shift_days n d))
     \<and> (n \<le> 0 \<longrightarrow> date_le (shift_days n d) d) \<and> (n < 0 \<longrightarrow> date_lt (shift_days n d) d)"
proof (induction n d rule: shift_days.induct)
  case (1 n d)
  note wf = \<open>wf_date d\<close>
  consider (zero) "n = 0" | (pos) "0 < n" | (neg) "n < 0" by linarith
  then show ?case
  proof cases
    case zero
    then have "shift_days n d = d" by (subst shift_days.simps) simp
    with zero wf show ?thesis by (simp add: date_le_refl)
  next
    case pos
    then have eq: "shift_days n d = shift_days (n - 1) (next_day d)"
      by (subst shift_days.simps) simp
    from pos have ne: "n \<noteq> 0" by simp
    note ih = "1.IH"(1)[OF ne pos wf_next_day[OF wf]]
    from ih pos have le: "date_le (next_day d) (shift_days (n - 1) (next_day d))" by simp
    have lt: "date_lt d (shift_days (n - 1) (next_day d))"
      using next_day_gt[OF wf] le by (rule date_lt_le_trans)
    from ih have "toordinal (shift_days (n - 1) (next_day d)) = toordinal d + n"
      using toordinal_next_day[OF wf] by simp
    moreover have "tod (next_day d) = tod d" "utcoffset (next_day d) = utcoffset d"
      by (simp_all add: next_day_def)
    ultimately show ?thesis using ih lt pos unfolding eq by (simp add: date_lt_imp_le)
  next
    case neg
    then have eq: "shift_days n d = shift_days (n + 1) (prev_day d)"
      by (subst shift_days.simps) simp
    from neg have ne: "n \<noteq> 0" and np: "\<not> 0 < n" by simp_all
    note ih = "1.IH"(2)[OF ne np wf_prev_day[OF wf]]
    from ih neg have le: "date_le (shift_days (n + 1) (prev_day d)) (prev_day d)" by simp
    have lt: "date_lt (shift_days (n + 1) (prev_day d)) d"
      using le prev_day_lt[OF wf] by (rule date_le_lt_trans)
    from ih have "toordinal (shift_days (n + 1) (prev_day d)) = toordinal d + n"
      using toordinal_prev_day[OF wf] by simp
    moreover have "tod (prev_day d) = tod d" "utcoffset (prev_day d) = utcoffset d"
      by (simp_all add: prev_day_def)
    ultimately show ?thesis using ih lt neg unfolding eq by (simp add: date_lt_imp_le)
  qed
qed

lemma wf_shift_days: "wf_date d \<Longrightarrow> wf_date (shift_days n d)"
  using shift_days_props[of d n] by simp

lemma toordinal_shift_days: "wf_date d \<Longrightarrow> toordinal (shift_days n d) = toordinal d + n"
  using shift_days_props[of d n] by simp

lemma shift_days_pos: "wf_date d \<Longrightarrow> 0 < n \<Longrightarrow> date_lt d (shift_days n d)"
  using shift_days_props[of d n] by simp

lemma shift_days_neg: "wf_date d \<Longrightarrow> n < 0 \<Longrightarrow> date_lt (shift_days n d) d"
  using shift_days_props[of d n] by simp

lemma shift_days_time:
  "wf_date d \<Longrightarrow> tod (shift_days n d) = tod d \<and> utcoffset (shift_days n d) = utcoffset d"
  using shift_days_props[of d n] by simp

lemma shift_days_1: "shift_days 1 d = next_day d"
proof -
  have "shift_days 1 d = shift_days 0 (next_day d)"
    by (subst shift_days.simps) simp
  also have "\<dots> = next_day d"
    by (subst shift_days.simps) simp
  finally show ?thesis .
qed

lemma add_days_Inr:
  assumes "add_days d n = Inr r" "valid_datetime d"
  shows "r = shift_days n d" "valid_datetime r" "toordinal r = toordinal d + n"
    "tod r = tod d" "utcoffset r = utcoffset d"
proof -
  have wf: "wf_date d" using assms(2) by (simp add: valid_datetime_def)
  show r: "r = shift_days n d"
    using assms(1) by (auto simp: add_days_def Let_def split: if_splits)
  have y: "1 \<le> year r" "year r \<le> 9999"
    using assms(1) by (auto simp: add_days_def Let_def split: if_splits)
  show t: "tod r = tod d" "utcoffset r = utcoffset d"
    using shift_days_time[OF wf, of n] by (simp_all add: r)
  show "toordinal r = toordinal d + n"
    using toordinal_shift_days[OF wf, of n] by (simp add: r)
  have "wf_date r" using wf_shift_days[OF wf, of n] by (simp add: r)
  with y t assms(2) show "valid_datetime r" by (simp add: valid_datetime_def)
qed

lemma add_days_Inl: "add_days d n = Inl e \<Longrightarrow> e = OverflowError"
  by (auto simp: add_days_def Let_def split: if_splits)

lemma py_index_month_lengths:
  assumes "1 \<le> m" "m \<le> 12"
  shows "py_index (month_lengths y) (m - 1) = Inr (days_in_month y m)"
  using assms by (simp add: py_index_def days_in_month_def month_lengths_def)

lemma month_wrap:
  fixes m0 :: int
  shows "1 \<le> (m0 - 1) mod 12 + 1" "(m0 - 1) mod 12 + 1 \<le> 12"
    "12 * ((m0 - 1) div 12) + ((m0 - 1) mod 12 + 1) = m0"
proof -
  have "0 \<le> (m0 - 1) mod 12" "(m0 - 1) mod 12 < 12" by simp_all
  then show "1 \<le> (m0 - 1) mod 12 + 1" "(m0 - 1) mod 12 + 1 \<le> 12" by linarith+
  have "12 * ((m0 - 1) div 12) + (m0 - 1) mod 12 = m0 - 1" by (rule mult_div_mod_eq)
  then show "12 * ((m0 - 1) div 12) + ((m0 - 1) mod 12 + 1) = m0" by linarith
qed

lemma datetime_new_Inr:
  "datetime_new y m d = Inr r \<Longrightarrow>
     r = \<lparr>year = y, month = m, day = d, tod = 0, utcoffset = None\<rparr> \<and> valid_datetime r"
  by (auto simp: datetime_new_def Let_def split: if_splits)

lemma datetime_new_Inl: "datetime_new y m d = Inl e \<Longrightarrow> e = ValueError \<or> e = OverflowError"
  by (auto simp: datetime_new_def Let_def split: if_splits)

lemma add_months_Inr:
  assumes "add_months current k = Inr r"
  shows "valid_datetime r"
    and "12 * year r + month r = 12 * year current + month current + k"
    and "day r = min (day current) (days_in_month (year r) (month r))"
proof -
  define m0 where "m0 = month current + k"
  define y' where "y' = year current + (m0 - 1) div 12"
  define m' where "m' = (m0 - 1) mod 12 + 1"
  have m': "1 \<le> m'" "m' \<le> 12" unfolding m'_def by (rule month_wrap)+
  have idx: "py_index (month_lengths y') (m' - 1) = Inr (days_in_month y' m')"
    using m' by (rule py_index_month_lengths)
  have "add_months current k = datetime_new y' m' (min (day current) (days_in_month y' m'))"
    unfolding add_months_def Let_def using idx by (simp add: m0_def y'_def m'_def)
  with assms have r: "r = \<lparr>year = y', month = m', day = min (day current) (days_in_month y' m'),
                           tod = 0, utcoffset = None\<rparr>"
    and v: "valid_datetime r"
    using datetime_new_Inr by auto
  show "valid_datetime r" by (rule v)
  define q where "q = (m0 - 1) div 12"
  have "12 * q + m' = m0"
    unfolding q_def m'_def by (rule month_wrap(3))
  moreover have "y' = year current + q"
    by (simp add: y'_def q_def)
  ultimately have "12 * y' + m' = 12 * year current + m0"
    by simp
  then show "12 * year r + month r = 12 * year current + month current + k"
    by (simp add: r m0_def)
  show "day r = min (day current) (days_in_month (year r) (month r))"
    by (simp add: r)
qed

lemma add_months_Inl:
  assumes "add_months current k = Inl e"
  shows "e = ValueError \<or> e = OverflowError"
proof -
  define m0 where "m0 = month current + k"
  define y' where "y' = year current + (m0 - 1) div 12"
  define m' where "m' = (m0 - 1) mod 12 + 1"
  have m': "1 \<le> m'" "m' \<le> 12" unfolding m'_def by (rule month_wrap)+
  have idx: "py_index (month_lengths y') (m' - 1) = Inr (days_in_month y' m')"
    using m' by (rule py_index_month_lengths)
  have "add_months current k = datetime_new y' m' (min (day current) (days_in_month y' m'))"
    unfolding add_months_def Let_def using idx by (simp add: m0_def y'_def m'_def)
  with assms show ?thesis using datetime_new_Inl by auto
qed

lemma add_years_eq:
  assumes "wf_date current"
  shows "add_years current k = datetime_new (year current + k) (month current)
           (min (day current) (days_in_month (year current + k) (month current)))"
  using py_index_month_lengths[of "month current" "year current + k"] wf_date_bounds[OF assms]
  by (simp add: add_years_def Let_def)

lemma add_years_Inr:
  assumes "add_years current k = Inr r" "wf_date current"
  shows "valid_datetime r" "year r = year current + k" "month r = month current"
    "day r = min (day current) (days_in_month (year r) (month r))"
proof -
  let ?y = "year current + k"
  let ?d = "min (day current) (days_in_month ?y (month current))"
  from assms(1) have "datetime_new ?y (month current) ?d = Inr r"
    by (simp only: add_years_eq[OF assms(2)])
  then have r: "r = \<lparr>year = ?y, month = month current, day = ?d, tod = 0, utcoffset = None\<rparr>"
    and v: "valid_datetime r"
    using datetime_new_Inr by blast+
  show "valid_datetime r" by (rule v)
  show "year r = year current + k" "month r = month current"
    "day r = min (day current) (days_in_month (year r) (month r))"
    by (simp_all add: r)
qed

lemma add_years_Inl:
  assumes "add_years current k = Inl e" "wf_date current"
  shows "e = ValueError \<or> e = OverflowError"
proof -
  from assms(1) have "datetime_new (year current + k) (month current)
      (min (day current) (days_in_month (year current + k) (month current))) = Inl e"
    by (simp only: add_years_eq[OF assms(2)])
  then show ?thesis by (rule datetime_new_Inl)
qed

lemma valid_datetime_wf: "valid_datetime d \<Longrightarrow> wf_date d"
  by (simp add: valid_datetime_def)

lemma month_index_less:
  assumes "wf_date a" "wf_date b" "12 * year a + month a < 12 * year b + month b"
  shows "date_lt a b"
proof -
  have "year a < year b \<or> (year a = year b \<and> month a < month b)"
    using wf_date_bounds(1,2)[OF assms(1)] wf_date_bounds(1,2)[OF assms(2)] assms(3) by linarith
  then show ?thesis unfolding date_lt_def by blast
qed

lemma add_days_mono:
  assumes "add_days d n = Inr r" "valid_datetime d"
  shows "0 < n \<Longrightarrow> date_lt d r" "n < 0 \<Longrightarrow> date_lt r d"
  using add_days_Inr(1)[OF assms] shift_days_pos[OF valid_datetime_wf[OF assms(2)]]
    shift_days_neg[OF valid_datetime_wf[OF assms(2)]]
  by simp_all

lemma add_months_mono:
  assumes "add_months d k = Inr r" "wf_date d"
  shows "0 < k \<Longrightarrow> date_lt d r" "k < 0 \<Longrightarrow> date_lt r d"
proof -
  have wf: "wf_date r" using add_months_Inr(1)[OF assms(1)] by (rule valid_datetime_wf)
  have eq: "12 * year r + month r = 12 * year d + month d + k"
    by (rule add_months_Inr(2)[OF assms(1)])
  show "0 < k \<Longrightarrow> date_lt d r"
    using eq by (intro month_index_less[OF assms(2) wf]) simp
  show "k < 0 \<Longrightarrow> date_lt r d"
    using eq by (intro month_index_less[OF wf assms(2)]) simp
qed

lemma add_years_mono:
  assumes "add_years d k = Inr r" "wf_date d"
  shows "0 < k \<Longrightarrow> date_lt d r" "k < 0 \<Longrightarrow> date_lt r d"
proof -
  have wf: "wf_date r" using add_years_Inr(1)[OF assms] by (rule valid_datetime_wf)
  have eq: "year r = year d + k" "month r = month d"
    by (rule add_years_Inr(2,3)[OF assms])+
  show "0 < k \<Longrightarrow> date_lt d r"
    using eq by (intro month_index_less[OF assms(2) wf]) simp
  show "k < 0 \<Longrightarrow> date_lt r d"
    using eq by (intro month_index_less[OF wf assms(2)]) simp
qed

lemma advance_cases:
  assumes "advance p i cur = Some res"
  obtains (daily) "p = Some ''daily''" "res = add_days cur i"
  | (weekly) "p = Some ''weekly''" "res = add_days cur (7 * i)"
  | (biweekly) "p = Some ''biweekly''" "res = add_days cur 14"
  | (monthly) "p = Some ''monthly''" "res = add_months cur i"
  | (quarterly) "p = Some ''quarterly''" "res = add_months cur (3 * i)"
  | (yearly) "p = Some ''yearly''" "res = add_years cur i"
  using assms unfolding advance_def by (auto split: if_splits)

lemma advance_valid:
  assumes "advance p i cur = Some (Inr nxt)" "valid_datetime cur"
  shows "valid_datetime nxt"
  using assms(1)
proof (cases rule: advance_cases)
  case daily then show ?thesis using add_days_Inr(2)[OF _ assms(2)] by simp
next
  case weekly then show ?thesis using add_days_Inr(2)[OF _ assms(2)] by simp
next
  case biweekly then show ?thesis using add_days_Inr(2)[OF _ assms(2)] by simp
next
  case monthly then show ?thesis using add_months_Inr(1) by simp
next
  case quarterly then show ?thesis using add_months_Inr(1) by simp
next
  case yearly then show ?thesis using add_years_Inr(1)[OF _ valid_datetime_wf[OF assms(2)]] by simp
qed

lemma advance_forward:
  assumes "advance p i cur = Some (Inr nxt)" "valid_datetime cur" "p = Some ''biweekly'' \<or> 0 < i"
  shows "date_lt cur nxt"
  using assms(1)
proof (cases rule: advance_cases)
  case daily then show ?thesis using add_days_mono(1)[OF _ assms(2)] assms(3) by simp
next
  case weekly then show ?thesis using add_days_mono(1)[OF _ assms(2), of "7 * i"] assms(3) by simp
next
  case biweekly then show ?thesis using add_days_mono(1)[OF _ assms(2), of 14] by simp
next
  case monthly then show ?thesis using add_months_mono(1)[OF _ valid_datetime_wf[OF assms(2)]] assms(3) by simp
next
  case quarterly then show ?thesis using add_months_mono(1)[OF _ valid_datetime_wf[OF assms(2)], of "3 * i"] assms(3) by simp
next
  case yearly then show ?thesis using add_years_mono(1)[OF _ valid_datetime_wf[OF assms(2)]] assms(3) by simp
qed

lemma advance_backward:
  assumes "advance p i cur = Some (Inr nxt)" "valid_datetime cur" "p \<noteq> Some ''biweekly''" "i < 0"
  shows "date_lt nxt cur"
  using assms(1)
proof (cases rule: advance_cases)
  case daily then show ?thesis using add_days_mono(2)[OF _ assms(2)] assms(4) by simp
next
  case weekly then show ?thesis using add_days_mono(2)[OF _ assms(2), of "7 * i"] assms(4) by simp
next
  case biweekly then show ?thesis using assms(3) by simp
next
  case monthly then show ?thesis using add_months_mono(2)[OF _ valid_datetime_wf[OF assms(2)]] assms(4) by simp
next
  case quarterly then show ?thesis using add_months_mono(2)[OF _ valid_datetime_wf[OF assms(2)], of "3 * i"] assms(4) by simp
next
  case yearly then show ?thesis using add_years_mono(2)[OF _ valid_datetime_wf[OF assms(2)]] assms(4) by simp
qed

lemma advance_variant:
  assumes "advance p i cur = Some (Inr nxt)" "valid_datetime cur" "i \<noteq> 0"
  shows "loop_variant p i nxt < loop_variant p i cur"
proof -
  have wf: "wf_date cur" using assms(2) by (rule valid_datetime_wf)
  have v: "valid_datetime nxt" by (rule advance_valid[OF assms(1) assms(2)])
  have wfn: "wf_date nxt" using v by (rule valid_datetime_wf)
  show ?thesis
  proof (cases "p = Some ''biweekly'' \<or> 0 < i")
    case True
    then have "date_lt cur nxt" by (rule advance_forward[OF assms(1) assms(2)])
    then have "date_rank cur < date_rank nxt" using date_rank_less[OF wf wfn] by simp
    then show ?thesis
      using True date_rank_range[OF v] date_rank_range[OF assms(2)] by (simp add: loop_variant_def)
  next
    case False
    then have "p \<noteq> Some ''biweekly''" "i < 0" using assms(3) by auto
    then have "date_lt nxt cur" by (rule advance_backward[OF assms(1) assms(2)])
    then have "date_rank nxt < date_rank cur" using date_rank_less[OF wfn wf] by simp
    then show ?thesis
      using False date_rank_range[OF v] date_rank_range[OF assms(2)] by (simp add: loop_variant_def)
  qed
qed
section \<open>Monthly advancement (claim C1)\<close>

text \<open>
  Claim C1, as stated, fails: the monthly event that starts on 2024-01-31, expanded over
  2024-01-01 to 2024-04-30, does not occur on 2024-01-31, 2024-02-29, 2024-03-31 and
  2024-04-30. (The parser reads the one string of the example, the recurrence start, as
  midnight of 2024-01-31.)
\<close>

theorem C1_claimed_dates_refuted:
  "occurrence_dates (expand_recurring_event (parser_of [(''2024-01-31'', ymd 2024 1 31)])
       (recurring ''monthly'' (Some 1) (Some ''2024-01-31'') (-50)) (ymd 2024 1 1) (ymd 2024 4 30))
     \<noteq> Some [''2024-01-31'', ''2024-02-29'', ''2024-03-31'', ''2024-04-30'']"
  by code_simp

text \<open>
  Claim C1, amended: the expansion yields 2024-01-31, 2024-02-29, 2024-03-29 and 2024-04-29;
  a monthly step moves the cursor by \<open>interval\<close> months and clamps the day of month to the
  smaller of the day of the current cursor (the previous occurrence, not the recurrence
  start) and the length of the target month.
\<close>

theorem C1_monthly_clamps_cursor_day:
  "occurrence_dates (expand_recurring_event (parser_of [(''2024-01-31'', ymd 2024 1 31)])
       (recurring ''monthly'' (Some 1) (Some ''2024-01-31'') (-50)) (ymd 2024 1 1) (ymd 2024 4 30))
     = Some [''2024-01-31'', ''2024-02-29'', ''2024-03-29'', ''2024-04-29'']
   \<and> (\<forall>current interval nxt.
         advance (Some ''monthly'') interval current = Some (Inr nxt) \<longrightarrow>
           day nxt = min (day current) (days_in_month (year nxt) (month nxt))
           \<and> 12 * year nxt + month nxt = 12 * year current + month current + interval)"
proof -
  have "occurrence_dates (expand_recurring_event (parser_of [(''2024-01-31'', ymd 2024 1 31)])
       (recurring ''monthly'' (Some 1) (Some ''2024-01-31'') (-50)) (ymd 2024 1 1) (ymd 2024 4 30))
     = Some [''2024-01-31'', ''2024-02-29'', ''2024-03-29'', ''2024-04-29'']"
    by code_simp
  moreover have "day nxt = min (day current) (days_in_month (year nxt) (month nxt))
           \<and> 12 * year nxt + month nxt = 12 * year current + month current + interval"
    if "advance (Some ''monthly'') interval current = Some (Inr nxt)" for current interval nxt
  proof -
    from that have "add_months current interval = Inr nxt"
      by (simp add: advance_def)
    then show ?thesis using add_months_Inr(2,3) by blast
  qed
  ultimately show ?thesis by blast
qed

theorem C1_monthly_clamps_cursor_day_witness:
  "advance (Some ''monthly'') 1 (ymd 2024 2 29) = Some (Inr (ymd 2024 3 29))
   \<and> day (ymd 2024 3 29) = min (day (ymd 2024 2 29)) (days_in_month (year (ymd 2024 3 29)) (month (ymd 2024 3 29)))"
proof -
  have h: "advance (Some ''monthly'') 1 (ymd 2024 2 29) = Some (Inr (ymd 2024 3 29))"
    by code_simp
  from C1_monthly_clamps_cursor_day h show ?thesis by blast
qed

section \<open>The loops of expand_recurring_event\<close>

lemma naive_lt_key: "naive_lt a b = (naive_key a < naive_key b)"
  by (auto simp: naive_lt_def naive_key_def)

lemma naive_le_key: "(naive_lt a b \<or> naive_eq a b) = (naive_key a \<le> naive_key b)"
  unfolding naive_lt_key by (auto simp: naive_eq_def naive_key_def)

lemma dt_lt_naive:
  "utcoffset a = None \<Longrightarrow> utcoffset b = None \<Longrightarrow>
     dt_lt a b = Inr (naive_key a < naive_key b)"
  by (simp add: dt_lt_def naive_lt_key)

lemma dt_le_naive:
  "utcoffset a = None \<Longrightarrow> utcoffset b = None \<Longrightarrow>
     dt_le a b = Inr (naive_key a \<le> naive_key b)"
  by (simp add: dt_le_def naive_le_key)

lemma dt_lt_aware:
  "utcoffset a = Some oa \<Longrightarrow> utcoffset b = Some ob \<Longrightarrow> dt_lt a b = Inr (instant a < instant b)"
  by (simp add: dt_lt_def)

lemma dt_le_aware:
  "utcoffset a = Some oa \<Longrightarrow> utcoffset b = Some ob \<Longrightarrow> dt_le a b = Inr (instant a \<le> instant b)"
  by (simp add: dt_le_def)

lemma dt_mixed:
  "utcoffset a = None \<Longrightarrow> utcoffset b = Some ob \<Longrightarrow> dt_lt a b = Inl TypeError \<and> dt_le a b = Inl TypeError
     \<and> dt_lt b a = Inl TypeError \<and> dt_le b a = Inl TypeError"
  by (simp add: dt_lt_def dt_le_def)

lemma dt_le_dt_min:
  assumes "dt_min a b = Inr m" "dt_le d m = Inr True"
  shows "dt_le d a = Inr True" "dt_le d b = Inr True"
proof -
  from assms(1) obtain sm where sm: "dt_lt b a = Inr sm" and m: "m = (if sm then b else a)"
    by (auto simp: dt_min_def split: sum.splits)
  have "dt_le d a = Inr True \<and> dt_le d b = Inr True"
  proof (cases "utcoffset a")
    case None
    show ?thesis
    proof (cases "utcoffset b")
      case nb: None
      show ?thesis
      proof (cases "utcoffset d")
        case nd: None
        from sm have "sm = (naive_key b < naive_key a)"
          by (simp add: dt_lt_naive[OF nb None])
        moreover have "utcoffset m = None" using m None nb by simp
        ultimately show ?thesis using assms(2) m
          by (auto simp: dt_le_naive[OF nd] None nb split: if_splits)
      next
        case (Some od)
        have "utcoffset m = None" using m None nb by simp
        with assms(2) Some show ?thesis using dt_mixed[of m d] by simp
      qed
    next
      case (Some ob)
      with sm None show ?thesis using dt_mixed[of a b] by simp
    qed
  next
    case (Some oa)
    show ?thesis
    proof (cases "utcoffset b")
      case None
      with sm Some show ?thesis using dt_mixed[of b a] by simp
    next
      case sb: (Some ob)
      have um: "\<exists>om. utcoffset m = Some om" using m Some sb by simp
      show ?thesis
      proof (cases "utcoffset d")
        case None
        with assms(2) um show ?thesis using dt_mixed[of d m] by auto
      next
        case sd: (Some od)
        from sm have "sm = (instant b < instant a)"
          by (simp add: dt_lt_aware[OF sb Some])
        moreover from um obtain om where om: "utcoffset m = Some om" by blast
        ultimately show ?thesis using assms(2) m
          by (auto simp: dt_le_aware[OF sd] Some sb split: if_splits)
      qed
    qed
  qed
  then show "dt_le d a = Inr True" "dt_le d b = Inr True" by simp_all
qed

lemma fast_forward_total:
  assumes "i \<noteq> 0"
  shows "valid_datetime cur \<Longrightarrow>
    \<exists>r. fast_forward p i s re cur = Some r \<and> (\<forall>c. r = Inr c \<longrightarrow> valid_datetime c)"
proof (induction "loop_variant p i cur" arbitrary: cur rule: less_induct)
  case less
  note step = fast_forward.simps[of p i s re cur]
  show ?case
  proof (cases "\<exists>nxt. dt_lt cur s = Inr True \<and> dt_le cur re = Inr True \<and> advance p i cur = Some (Inr nxt)")
    case False
    then have "(\<exists>e. fast_forward p i s re cur = Some (Inl e)) \<or> fast_forward p i s re cur = Some (Inr cur)"
      unfolding step by (auto split: sum.splits option.splits)
    with less.prems show ?thesis by auto
  next
    case True
    then obtain nxt where c: "dt_lt cur s = Inr True" "dt_le cur re = Inr True"
      and adv: "advance p i cur = Some (Inr nxt)" by blast
    have eq: "fast_forward p i s re cur = fast_forward p i s re nxt"
      unfolding step by (simp add: c adv)
    have "valid_datetime nxt" using advance_valid[OF adv less.prems] .
    moreover have "loop_variant p i nxt < loop_variant p i cur"
      by (rule advance_variant[OF adv less.prems assms])
    ultimately show ?thesis using less.hyps[of nxt] eq by simp
  qed
qed

lemma emit_loop_total:
  assumes "i \<noteq> 0"
  shows "valid_datetime cur \<Longrightarrow>
    \<exists>r. emit_loop ev p i s t re cur acc = Some r \<and>
      (\<forall>occs. r = Inr occs \<longrightarrow>
         (\<exists>new. occs = acc @ new \<and>
            (\<forall>x\<in>set new. \<exists>d. valid_datetime d \<and> dt_le s d = Inr True \<and> dt_le d t = Inr True
                 \<and> dt_le d re = Inr True \<and> x = make_occurrence ev d)))"
proof (induction "loop_variant p i cur" arbitrary: cur acc rule: less_induct)
  case less
  let ?P = "\<lambda>x. \<exists>d. valid_datetime d \<and> dt_le s d = Inr True \<and> dt_le d t = Inr True
                 \<and> dt_le d re = Inr True \<and> x = make_occurrence ev d"
  note step = emit_loop.simps[of ev p i s t re cur acc]
  show ?case
  proof (cases "\<exists>bound started. dt_min re t = Inr bound \<and> dt_le cur bound = Inr True
                  \<and> dt_le s cur = Inr started")
    case False
    then have "(\<exists>e. emit_loop ev p i s t re cur acc = Some (Inl e))
        \<or> emit_loop ev p i s t re cur acc = Some (Inr acc)"
      unfolding step by (auto split: sum.splits)
    then show ?thesis by auto
  next
    case True
    then obtain bound started where c: "dt_min re t = Inr bound" "dt_le cur bound = Inr True"
      "dt_le s cur = Inr started" by blast
    define acc' where "acc' = (if started then acc @ [make_occurrence ev cur] else acc)"
    have inwin: "dt_le cur re = Inr True" "dt_le cur t = Inr True"
      using dt_le_dt_min[OF c(1,2)] by simp_all
    have acc': "\<exists>new. acc' = acc @ new \<and> (\<forall>x\<in>set new. ?P x)"
    proof (cases started)
      case True
      then have "acc' = acc @ [make_occurrence ev cur]" by (simp add: acc'_def)
      moreover have "\<forall>x\<in>set [make_occurrence ev cur]. ?P x"
        using True c(3) inwin less.prems by auto
      ultimately show ?thesis by blast
    next
      case False
      then have "acc' = acc @ []" by (simp add: acc'_def)
      moreover have "\<forall>x\<in>set []. ?P x" by simp
      ultimately show ?thesis by blast
    qed
    show ?thesis
    proof (cases "advance p i cur")
      case None
      then have "emit_loop ev p i s t re cur acc = Some (Inr acc')"
        unfolding step by (simp add: c acc'_def Let_def)
      with acc' show ?thesis by simp
    next
      case (Some res)
      show ?thesis
      proof (cases res)
        case (Inl e)
        with Some have "emit_loop ev p i s t re cur acc = Some (Inl e)"
          unfolding step by (simp add: c Let_def)
        then show ?thesis by simp
      next
        case (Inr nxt)
        with Some have eq: "emit_loop ev p i s t re cur acc = emit_loop ev p i s t re nxt acc'"
          unfolding step by (simp add: c acc'_def Let_def)
        from Some Inr have adv: "advance p i cur = Some (Inr nxt)" by simp
        have v: "valid_datetime nxt" using advance_valid[OF adv less.prems] .
        have lt: "loop_variant p i nxt < loop_variant p i cur"
          by (rule advance_variant[OF adv less.prems assms])
        from less.hyps[OF lt v, of acc'] obtain r where
          r: "emit_loop ev p i s t re nxt acc' = Some r"
          and rest: "\<forall>occs. r = Inr occs \<longrightarrow> (\<exists>new. occs = acc' @ new \<and> (\<forall>x\<in>set new. ?P x))"
          by blast
        have "\<exists>new. occs = acc @ new \<and> (\<forall>x\<in>set new. ?P x)" if "r = Inr occs" for occs
        proof -
          from rest that obtain n2 where n2: "occs = acc' @ n2" "\<forall>x\<in>set n2. ?P x"
            by blast
          from acc' obtain n1 where n1: "acc' = acc @ n1" "\<forall>x\<in>set n1. ?P x"
            by blast
          have "occs = acc @ (n1 @ n2)" using n1(1) n2(1) by simp
          moreover have "\<forall>x\<in>set (n1 @ n2). ?P x"
            using n1(2) n2(2) by auto
          ultimately show ?thesis by blast
        qed
        with eq r show ?thesis by simp
      qed
    qed
  qed
qed

lemma interval_or_1_nonzero: "interval_or_1 ev \<noteq> 0"
  by (simp add: interval_or_1_def split: option.splits)

lemma parser_okD: "parser_ok f \<Longrightarrow> f s = Inr d \<Longrightarrow> valid_datetime d"
  by (auto simp: parser_ok_def)

lemma expand_recurring_event_total:
  assumes "parser_ok f"
  shows "\<exists>r. expand_recurring_event f ev s t = Some r"
proof (cases "recurrence_start ev")
  case None
  then show ?thesis by (simp add: expand_recurring_event_def)
next
  case (Some str)
  show ?thesis
  proof (cases "f str")
    case (Inl e)
    with Some show ?thesis by (simp add: expand_recurring_event_def)
  next
    case (Inr rs)
    have vrs: "valid_datetime rs" using parser_okD[OF assms Inr] .
    show ?thesis
    proof (cases "parse_rec_end f ev t")
      case (Inl e)
      with Some Inr show ?thesis by (simp add: expand_recurring_event_def)
    next
      case re: (Inr re)
      from fast_forward_total[where i = "interval_or_1 ev" and cur = rs and p = "recurrence_pattern ev" and s = s and re = re, OF interval_or_1_nonzero vrs]
      obtain r1 where r1: "fast_forward (recurrence_pattern ev) (interval_or_1 ev) s re rs = Some r1"
        and v1: "\<forall>c. r1 = Inr c \<longrightarrow> valid_datetime c" by blast
      show ?thesis
      proof (cases r1)
        case (Inl e)
        with Some Inr re r1 show ?thesis by (simp add: expand_recurring_event_def)
      next
        case c: (Inr c)
        with v1 have vc: "valid_datetime c" by simp
        from emit_loop_total[where i = "interval_or_1 ev" and cur = c and ev = ev and p = "recurrence_pattern ev" and s = s and t = t and re = re and acc = "[]", OF interval_or_1_nonzero vc]
        obtain r2 where "emit_loop ev (recurrence_pattern ev) (interval_or_1 ev) s t re c [] = Some r2"
          by blast
        with Some Inr re r1 c show ?thesis by (simp add: expand_recurring_event_def)
      qed
    qed
  qed
qed

lemma expand_recurring_event_occs:
  assumes "parser_ok f" "expand_recurring_event f ev s t = Some (Inr occs)"
  shows "\<forall>x\<in>set occs. \<exists>d. valid_datetime d \<and> dt_le s d = Inr True \<and> dt_le d t = Inr True
           \<and> x = make_occurrence ev d"
proof -
  from assms(2) obtain str rs re c where
    str: "recurrence_start ev = Some str" and rs: "f str = Inr rs"
    and re: "parse_rec_end f ev t = Inr re"
    and ff: "fast_forward (recurrence_pattern ev) (interval_or_1 ev) s re rs = Some (Inr c)"
    and em: "emit_loop ev (recurrence_pattern ev) (interval_or_1 ev) s t re c [] = Some (Inr occs)"
    by (auto simp: expand_recurring_event_def Let_def split: option.splits sum.splits)
  have vrs: "valid_datetime rs" using parser_okD[OF assms(1) rs] .
  from fast_forward_total[where i = "interval_or_1 ev" and cur = rs and p = "recurrence_pattern ev" and s = s and re = re, OF interval_or_1_nonzero vrs] ff
  have vc: "valid_datetime c" by simp
  from emit_loop_total[where i = "interval_or_1 ev" and cur = c and ev = ev and p = "recurrence_pattern ev" and s = s and t = t and re = re and acc = "[]", OF interval_or_1_nonzero vc] em
  show ?thesis by auto
qed


section \<open>The occurrences of a query\<close>

lemma one_off_event_occs:
  assumes "parser_ok f" "one_off_event f ev s t = Inr occs" "\<not> is_recurring ev"
  shows "\<forall>x\<in>set occs. produced_by f s t ev x"
proof (cases "occs = []")
  case True
  then show ?thesis by simp
next
  case False
  with assms(2) obtain str d where str: "event_date ev = Some str" and d: "f str = Inr d"
    and w: "dt_le s d = Inr True" "dt_le d t = Inr True" and o: "occs = [one_off_occurrence ev str]"
    by (auto simp: one_off_event_def split: option.splits if_splits sum.splits)
  have "valid_datetime d" using parser_okD[OF assms(1) d] .
  moreover have "occ_date (one_off_occurrence ev str) = str" by (simp add: one_off_occurrence_def)
  ultimately have "produced_by f s t ev (one_off_occurrence ev str)"
    unfolding produced_by_def using str d w assms(3) by auto
  with o show ?thesis by simp
qed

lemma expand_recurring_event_produced:
  assumes "parser_ok f" "expand_recurring_event f ev s t = Some (Inr occs)" "is_recurring ev"
  shows "\<forall>x\<in>set occs. produced_by f s t ev x"
  using expand_recurring_event_occs[OF assms(1,2)] assms(3) unfolding produced_by_def by auto

lemma collect_occurrences_total:
  assumes "parser_ok f"
  shows "\<exists>r. collect_occurrences f lf s t evs acc = Some r"
proof (induction evs arbitrary: acc)
  case Nil
  show ?case by simp
next
  case (Cons ev evs)
  show ?case
  proof (cases "label_skipped lf ev")
    case True
    then show ?thesis using Cons.IH[of acc] by simp
  next
    case ns: False
    show ?thesis
    proof (cases "is_recurring ev")
      case True
      from expand_recurring_event_total[OF assms, of ev s t] obtain r where
        r: "expand_recurring_event f ev s t = Some r" by blast
      show ?thesis
      proof (cases r)
        case (Inl e)
        with ns True r show ?thesis by simp
      next
        case (Inr o1)
        with ns True r show ?thesis using Cons.IH[of "acc @ o1"] by simp
      qed
    next
      case False
      show ?thesis
      proof (cases "one_off_event f ev s t")
        case (Inl e)
        with ns False show ?thesis by simp
      next
        case (Inr o1)
        with ns False show ?thesis using Cons.IH[of "acc @ o1"] by simp
      qed
    qed
  qed
qed

lemma collect_occurrences_occs:
  assumes "parser_ok f"
  shows "collect_occurrences f lf s t evs acc = Some (Inr occs) \<Longrightarrow>
    \<exists>new. occs = acc @ new \<and>
      (\<forall>x\<in>set new. \<exists>ev\<in>set evs. \<not> label_skipped lf ev \<and> produced_by f s t ev x)"
proof (induction evs arbitrary: acc)
  case Nil
  then have "occs = acc @ []" by simp
  moreover have "\<forall>x\<in>set []. \<exists>ev\<in>set []. \<not> label_skipped lf ev \<and> produced_by f s t ev x"
    by simp
  ultimately show ?case by blast
next
  case (Cons ev evs)
  show ?case
  proof (cases "label_skipped lf ev")
    case True
    with Cons.prems have "collect_occurrences f lf s t evs acc = Some (Inr occs)" by simp
    from Cons.IH[OF this] show ?thesis by auto
  next
    case ns: False
    have step: "\<exists>new. occs = acc @ new \<and>
        (\<forall>x\<in>set new. \<exists>e\<in>set (ev # evs). \<not> label_skipped lf e \<and> produced_by f s t e x)"
      if rest: "collect_occurrences f lf s t evs (acc @ o1) = Some (Inr occs)"
        and o1: "\<forall>x\<in>set o1. produced_by f s t ev x"
      for o1
    proof -
      from Cons.IH[OF rest] obtain n2 where n2: "occs = (acc @ o1) @ n2"
        "\<forall>x\<in>set n2. \<exists>e\<in>set evs. \<not> label_skipped lf e \<and> produced_by f s t e x"
        by blast
      have "occs = acc @ (o1 @ n2)" using n2(1) by simp
      moreover have "\<forall>x\<in>set (o1 @ n2). \<exists>e\<in>set (ev # evs). \<not> label_skipped lf e \<and> produced_by f s t e x"
        using o1 n2(2) ns by auto
      ultimately show ?thesis by blast
    qed
    show ?thesis
    proof (cases "is_recurring ev")
      case True
      with ns Cons.prems obtain o1 where e: "expand_recurring_event f ev s t = Some (Inr o1)"
        and rest: "collect_occurrences f lf s t evs (acc @ o1) = Some (Inr occs)"
        by (auto split: option.splits sum.splits)
      show ?thesis by (rule step[OF rest expand_recurring_event_produced[OF assms e True]])
    next
      case False
      with ns Cons.prems obtain o1 where e: "one_off_event f ev s t = Inr o1"
        and rest: "collect_occurrences f lf s t evs (acc @ o1) = Some (Inr occs)"
        by (auto split: option.splits sum.splits)
      show ?thesis by (rule step[OF rest one_off_event_occs[OF assms e False]])
    qed
  qed
qed

lemma get_events_in_range_total:
  assumes "parser_ok f"
  shows "\<exists>r. get_events_in_range f db sd ed lf = Some r"
proof (cases "f sd")
  case (Inl e)
  then show ?thesis by (simp add: get_events_in_range_def)
next
  case s: (Inr s)
  show ?thesis
  proof (cases "f ed")
    case (Inl e)
    with s show ?thesis by (simp add: get_events_in_range_def)
  next
    case t: (Inr t)
    from collect_occurrences_total[OF assms, of lf s t db "[]"] obtain r where
      r: "collect_occurrences f lf s t db [] = Some r" by blast
    with s t show ?thesis by (cases r) (simp_all add: get_events_in_range_def)
  qed
qed

lemma get_events_in_range_Inr:
  assumes "get_events_in_range f db sd ed lf = Some (Inr occs)"
  obtains s t all_occurrences where "f sd = Inr s" "f ed = Inr t"
    "collect_occurrences f lf s t db [] = Some (Inr all_occurrences)"
    "occs = sort_key occ_date all_occurrences"
  using assms unfolding get_events_in_range_def
  by (auto split: sum.splits option.splits)

lemma get_events_in_range_produced:
  assumes "parser_ok f" "get_events_in_range f db sd ed lf = Some (Inr occs)"
  shows "\<exists>s t. f sd = Inr s \<and> f ed = Inr t \<and>
    (\<forall>x\<in>set occs. \<exists>ev\<in>set db. \<not> label_skipped lf ev \<and> produced_by f s t ev x)"
proof -
  from assms(2) obtain s t al where s: "f sd = Inr s" and t: "f ed = Inr t"
    and c: "collect_occurrences f lf s t db [] = Some (Inr al)" and o: "occs = sort_key occ_date al"
    by (rule get_events_in_range_Inr)
  from collect_occurrences_occs[OF assms(1) c]
  have "\<forall>x\<in>set al. \<exists>ev\<in>set db. \<not> label_skipped lf ev \<and> produced_by f s t ev x"
    by simp
  then show ?thesis using s t o by simp
qed


lemma parser_of_ok: "list_all (\<lambda>p. valid_datetime (snd p)) table \<Longrightarrow> parser_ok (parser_of table)"
  unfolding parser_ok_def parser_of_def
  by (auto simp: list_all_iff split: option.splits dest!: map_of_SomeD)

section \<open>Occurrences lie in the query window (claim C5)\<close>



section \<open>Expansions that agree\<close>

text \<open>
  Two expansions whose steps agree at every cursor and whose occurrences are built alike
  are equal.
\<close>

lemma fast_forward_cong:
  assumes "\<And>c. advance p j c = advance p i c" "i \<noteq> 0"
  shows "valid_datetime cur \<Longrightarrow> fast_forward p i s re cur = fast_forward p j s re cur"
proof (induction "loop_variant p i cur" arbitrary: cur rule: less_induct)
  case less
  note l = fast_forward.simps[of p i s re cur]
  note r = fast_forward.simps[of p j s re cur]
  show ?case
  proof (cases "advance p i cur")
    case None
    then show ?thesis
      by (simp add: l r assms(1) split: sum.splits)
  next
    case (Some res)
    show ?thesis
    proof (cases res)
      case (Inl e)
      with Some show ?thesis
        by (simp add: l r assms(1) split: sum.splits)
    next
      case (Inr nxt)
      with Some have a: "advance p i cur = Some (Inr nxt)" by simp
      have v: "valid_datetime nxt" by (rule advance_valid[OF a less.prems])
      have lt: "loop_variant p i nxt < loop_variant p i cur"
        by (rule advance_variant[OF a less.prems assms(2)])
      have ih: "fast_forward p i s re nxt = fast_forward p j s re nxt"
        by (rule less.hyps[OF lt v])
      show ?thesis
        by (simp add: l r assms(1) a ih split: sum.splits)
    qed
  qed
qed

lemma emit_loop_cong:
  assumes "make_occurrence ev = make_occurrence ev'" "\<And>c. advance p j c = advance p i c" "i \<noteq> 0"
  shows "valid_datetime cur \<Longrightarrow>
     emit_loop ev p i s t re cur acc = emit_loop ev' p j s t re cur acc"
proof (induction "loop_variant p i cur" arbitrary: cur acc rule: less_induct)
  case less
  note l = emit_loop.simps[of ev p i s t re cur acc]
  note r = emit_loop.simps[of ev' p j s t re cur acc]
  show ?case
  proof (cases "advance p i cur")
    case None
    then show ?thesis
      by (simp add: l r assms(1,2) split: sum.splits)
  next
    case (Some res)
    show ?thesis
    proof (cases res)
      case (Inl e)
      with Some show ?thesis
        by (simp add: l r assms(1,2) split: sum.splits)
    next
      case (Inr nxt)
      with Some have a: "advance p i cur = Some (Inr nxt)" by simp
      have v: "valid_datetime nxt" by (rule advance_valid[OF a less.prems])
      have lt: "loop_variant p i nxt < loop_variant p i cur"
        by (rule advance_variant[OF a less.prems assms(3)])
      have ih: "emit_loop ev p i s t re nxt acc' = emit_loop ev' p j s t re nxt acc'" for acc'
        by (rule less.hyps[OF lt v])
      show ?thesis
        by (simp add: l r assms(1,2) a ih Let_def split: sum.splits)
    qed
  qed
qed

lemma expand_recurring_event_cong:
  assumes ok: "parser_ok f"
    and same: "recurrence_start ev' = recurrence_start ev" "recurrence_end ev' = recurrence_end ev"
      "recurrence_pattern ev' = recurrence_pattern ev" "make_occurrence ev' = make_occurrence ev"
    and adv: "\<And>c. advance (recurrence_pattern ev) (interval_or_1 ev') c
                 = advance (recurrence_pattern ev) (interval_or_1 ev) c"
  shows "expand_recurring_event f ev s t = expand_recurring_event f ev' s t"
proof (cases "recurrence_start ev")
  case None
  then show ?thesis by (simp add: expand_recurring_event_def same)
next
  case (Some str)
  have pe: "parse_rec_end f ev' t = parse_rec_end f ev t"
    by (simp add: parse_rec_end_def same)
  show ?thesis
  proof (cases "f str")
    case (Inl e)
    with Some show ?thesis by (simp add: expand_recurring_event_def same)
  next
    case (Inr rec_start)
    have vs: "valid_datetime rec_start" using parser_okD[OF ok Inr] .
    show ?thesis
    proof (cases "parse_rec_end f ev t")
      case (Inl e)
      with Some Inr pe show ?thesis by (simp add: expand_recurring_event_def same)
    next
      case re: (Inr rec_end)
      let ?p = "recurrence_pattern ev"
      have ff: "fast_forward ?p (interval_or_1 ev) s rec_end rec_start
          = fast_forward ?p (interval_or_1 ev') s rec_end rec_start"
        by (rule fast_forward_cong[OF adv interval_or_1_nonzero vs])
      from fast_forward_total[where i = "interval_or_1 ev" and cur = rec_start and p = ?p
          and s = s and re = rec_end, OF interval_or_1_nonzero vs]
      obtain r where r: "fast_forward ?p (interval_or_1 ev) s rec_end rec_start = Some r"
        and rv: "\<forall>c. r = Inr c \<longrightarrow> valid_datetime c" by blast
      have r': "fast_forward ?p (interval_or_1 ev') s rec_end rec_start = Some r"
        using ff r by simp
      have pe': "parse_rec_end f ev' t = Inr rec_end" using pe re by simp
      show ?thesis
      proof (cases r)
        case (Inl e)
        show ?thesis
          by (simp add: expand_recurring_event_def Let_def same Some Inr re pe' r r' Inl)
      next
        case c: (Inr cur)
        with rv have vc: "valid_datetime cur" by simp
        have el: "emit_loop ev ?p (interval_or_1 ev) s t rec_end cur []
            = emit_loop ev' ?p (interval_or_1 ev') s t rec_end cur []"
          by (rule emit_loop_cong[OF same(4)[symmetric] adv interval_or_1_nonzero vc])
        show ?thesis
          by (simp add: expand_recurring_event_def Let_def same Some Inr re pe' r r' c el)
      qed
    qed
  qed
qed

lemma advance_biweekly: "advance (Some ''biweekly'') i current = Some (add_days current 14)"
  by (simp add: advance_def)

section \<open>Biweekly events (claim C7)\<close>

text \<open>
  Claim C7: for the pattern biweekly, a step of the cursor does not depend on the interval;
  it moves the cursor to the same time of day 14 days later (by day number); and the whole
  expansion of a biweekly event is the same for every value of its interval.
\<close>

theorem C7_biweekly_ignores_interval:
  assumes "parser_ok fromisoformat"
  shows "advance (Some ''biweekly'') i current = advance (Some ''biweekly'') j current
   \<and> (wf_date current \<and> advance (Some ''biweekly'') i current = Some (Inr nxt) \<longrightarrow>
        toordinal nxt = toordinal current + 14 \<and> tod nxt = tod current
        \<and> utcoffset nxt = utcoffset current)
   \<and> (recurrence_pattern ev = Some ''biweekly'' \<longrightarrow>
        expand_recurring_event fromisoformat (ev\<lparr>recurrence_interval := a\<rparr>) s t
        = expand_recurring_event fromisoformat (ev\<lparr>recurrence_interval := b\<rparr>) s t)"
proof (intro conjI impI)
  show "advance (Some ''biweekly'') i current = advance (Some ''biweekly'') j current"
    by (simp only: advance_biweekly)
next
  assume h: "wf_date current \<and> advance (Some ''biweekly'') i current = Some (Inr nxt)"
  then have "add_days current 14 = Inr nxt" by (simp add: advance_biweekly)
  then have n: "nxt = shift_days 14 current"
    by (auto simp: add_days_def Let_def split: if_splits)
  from h have wf: "wf_date current" by simp
  show "toordinal nxt = toordinal current + 14" unfolding n by (rule toordinal_shift_days[OF wf])
  show "tod nxt = tod current" unfolding n using shift_days_time[OF wf] by simp
  show "utcoffset nxt = utcoffset current" unfolding n using shift_days_time[OF wf] by simp
next
  assume p: "recurrence_pattern ev = Some ''biweekly''"
  let ?A = "ev\<lparr>recurrence_interval := a\<rparr>" and ?B = "ev\<lparr>recurrence_interval := b\<rparr>"
  have mk: "make_occurrence ?B = make_occurrence ?A"
    by (rule ext) (simp add: make_occurrence_def)
  show "expand_recurring_event fromisoformat ?A s t = expand_recurring_event fromisoformat ?B s t"
    by (rule expand_recurring_event_cong[OF assms _ _ _ mk]) (simp_all add: p advance_biweekly)
qed

theorem C7_biweekly_ignores_interval_witness:
  "parser_ok (parser_of [(''2025-01-01'', ymd 2025 1 1)])
   \<and> wf_date (ymd 2025 1 1)
   \<and> advance (Some ''biweekly'') 5 (ymd 2025 1 1) = Some (Inr (ymd 2025 1 15))
   \<and> toordinal (ymd 2025 1 15) = toordinal (ymd 2025 1 1) + 14
   \<and> recurrence_pattern (recurring ''biweekly'' None (Some ''2025-01-01'') 10) = Some ''biweekly''
   \<and> expand_recurring_event (parser_of [(''2025-01-01'', ymd 2025 1 1)])
         ((recurring ''biweekly'' None (Some ''2025-01-01'') 10)\<lparr>recurrence_interval := Some 5\<rparr>)
         (ymd 2025 1 1) (ymd 2025 2 1)
       = expand_recurring_event (parser_of [(''2025-01-01'', ymd 2025 1 1)])
         ((recurring ''biweekly'' None (Some ''2025-01-01'') 10)\<lparr>recurrence_interval := Some 1\<rparr>)
         (ymd 2025 1 1) (ymd 2025 2 1)
   \<and> occurrence_dates (expand_recurring_event (parser_of [(''2025-01-01'', ymd 2025 1 1)])
         ((recurring ''biweekly'' None (Some ''2025-01-01'') 10)\<lparr>recurrence_interval := Some 5\<rparr>)
         (ymd 2025 1 1) (ymd 2025 2 1)) = Some [''2025-01-01'', ''2025-01-15'', ''2025-01-29'']"
proof -
  let ?f = "parser_of [(''2025-01-01'', ymd 2025 1 1)]"
  have ok: "parser_ok ?f" by (rule parser_of_ok) code_simp
  have w: "wf_date (ymd 2025 1 1)" by code_simp
  have a: "advance (Some ''biweekly'') 5 (ymd 2025 1 1) = Some (Inr (ymd 2025 1 15))" by code_simp
  have p: "recurrence_pattern (recurring ''biweekly'' None (Some ''2025-01-01'') 10) = Some ''biweekly''"
    by (simp add: recurring_def)
  have d: "occurrence_dates (expand_recurring_event ?f
         ((recurring ''biweekly'' None (Some ''2025-01-01'') 10)\<lparr>recurrence_interval := Some 5\<rparr>)
         (ymd 2025 1 1) (ymd 2025 2 1)) = Some [''2025-01-01'', ''2025-01-15'', ''2025-01-29'']"
    by code_simp
  note c7 = C7_biweekly_ignores_interval[OF ok, where i = 5 and current = "ymd 2025 1 1" and j = 5
      and nxt = "ymd 2025 1 15" and ev = "recurring ''biweekly'' None (Some ''2025-01-01'') 10"
      and a = "Some 5" and s = "ymd 2025 1 1" and t = "ymd 2025 2 1" and b = "Some 1"]
  from c7 w a have o: "toordinal (ymd 2025 1 15) = toordinal (ymd 2025 1 1) + 14" by blast
  from c7 p have e: "expand_recurring_event ?f
         ((recurring ''biweekly'' None (Some ''2025-01-01'') 10)\<lparr>recurrence_interval := Some 5\<rparr>)
         (ymd 2025 1 1) (ymd 2025 2 1)
       = expand_recurring_event ?f
         ((recurring ''biweekly'' None (Some ''2025-01-01'') 10)\<lparr>recurrence_interval := Some 1\<rparr>)
         (ymd 2025 1 1) (ymd 2025 2 1)" by blast
  show ?thesis using ok w a o p d e by simp
qed

section \<open>Unknown patterns (claim C9)\<close>









section \<open>Termination of the expansion (claim C10)\<close>




section \<open>Recurrence fields are not validated (claim C2)\<close>




section \<open>A window that ends before it starts (claim C3)\<close>

lemma dt_window_empty:
  assumes "dt_lt e s = Inr True" "dt_le s d = Inr True" "dt_le d e = Inr True"
  shows False
proof (cases "utcoffset s")
  case None
  show ?thesis
  proof (cases "utcoffset e")
    case (Some oe)
    with None assms(1) show ?thesis using dt_mixed[of s e] by simp
  next
    case ne: None
    show ?thesis
    proof (cases "utcoffset d")
      case (Some od)
      with None assms(2) show ?thesis using dt_mixed[of s d] by simp
    next
      case nd: None
      from assms show ?thesis
        by (simp add: dt_lt_naive[OF ne None] dt_le_naive[OF None nd] dt_le_naive[OF nd ne])
    qed
  qed
next
  case (Some os)
  show ?thesis
  proof (cases "utcoffset e")
    case None
    with Some assms(1) show ?thesis using dt_mixed[of e s] by simp
  next
    case se: (Some oe)
    show ?thesis
    proof (cases "utcoffset d")
      case None
      with Some assms(2) show ?thesis using dt_mixed[of d s] by simp
    next
      case sd: (Some od)
      from assms show ?thesis
        by (simp add: dt_lt_aware[OF se Some] dt_le_aware[OF Some sd] dt_le_aware[OF sd se])
    qed
  qed
qed

lemma dt_lt_not_le:
  assumes "dt_lt e s = Inr True"
  shows "dt_le s e = Inr False"
proof (cases "utcoffset s")
  case None
  show ?thesis
  proof (cases "utcoffset e")
    case (Some oe)
    with None assms show ?thesis using dt_mixed[of s e] by simp
  next
    case ne: None
    from assms show ?thesis
      by (simp add: dt_lt_naive[OF ne None] dt_le_naive[OF None ne])
  qed
next
  case (Some os)
  show ?thesis
  proof (cases "utcoffset e")
    case None
    with Some assms show ?thesis using dt_mixed[of e s] by simp
  next
    case se: (Some oe)
    from assms show ?thesis
      by (simp add: dt_lt_aware[OF se Some] dt_le_aware[OF Some se])
  qed
qed

lemma calculate_balance_timeline_Inr:
  assumes "calculate_balance_timeline f db sd ed bal lf = Some (Inr r)"
  obtains s e evs points final where "f sd = Inr s" "f ed = Inr e"
    "get_events_in_range f db sd ed lf = Some (Inr evs)"
    "walk_days (group_by_date evs Map.empty) e s bal [] = Some (Inr (points, final))"
    "r = \<lparr>timeline = points, events = evs, starting_balance = bal, ending_balance = round2 final\<rparr>"
  using assms unfolding calculate_balance_timeline_def
  by (auto split: sum.splits option.splits prod.splits)

text \<open>
  Claim C3, as stated, fails: the query for the window from 2025-01-03 to 2025-01-01 is not
  rejected. It returns an empty timeline, no occurrence, and the starting balance as ending
  balance.
\<close>

theorem C3_inverted_window_is_answered:
  "calculate_balance_timeline
       (parser_of [(''2025-01-03'', ymd 2025 1 3), (''2025-01-01'', ymd 2025 1 1),
                   (''2025-01-02'', ymd 2025 1 2)])
       [one_off ''2025-01-02'' (-50) []] ''2025-01-03'' ''2025-01-01'' 1000 None
     = Some (Inr \<lparr>timeline = [], events = [], starting_balance = 1000, ending_balance = 1000\<rparr>)"
  by code_simp

text \<open>
  Claim C3, amended: no window is validated. When the window start is after the window end,
  a query that returns has an empty timeline and no occurrence, and its ending balance is the
  starting balance rounded to two decimals.
\<close>

theorem C3_inverted_window_gives_empty_timeline:
  assumes "parser_ok fromisoformat"
    and "fromisoformat start_date = Inr start_dt" "fromisoformat end_date = Inr end_dt"
    and "dt_lt end_dt start_dt = Inr True"
    and "calculate_balance_timeline fromisoformat db start_date end_date starting_bal label_filter
           = Some (Inr r)"
  shows "timeline r = [] \<and> events r = [] \<and> starting_balance r = starting_bal
    \<and> ending_balance r = round2 starting_bal"
proof -
  from assms(5) obtain s e evs points final where s: "fromisoformat start_date = Inr s"
    and e: "fromisoformat end_date = Inr e"
    and g: "get_events_in_range fromisoformat db start_date end_date label_filter = Some (Inr evs)"
    and w: "walk_days (group_by_date evs Map.empty) e s starting_bal [] = Some (Inr (points, final))"
    and r: "r = \<lparr>timeline = points, events = evs, starting_balance = starting_bal,
                 ending_balance = round2 final\<rparr>"
    by (rule calculate_balance_timeline_Inr)
  from s e assms(2,3) have se: "s = start_dt" "e = end_dt" by simp_all
  from get_events_in_range_produced[OF assms(1) g] s e
  have "\<forall>x\<in>set evs. \<exists>ev\<in>set db. \<not> label_skipped label_filter ev \<and> produced_by fromisoformat s e ev x"
    by auto
  then have "\<forall>x\<in>set evs. \<exists>d. dt_le s d = Inr True \<and> dt_le d e = Inr True"
    unfolding produced_by_def by blast
  then have "\<forall>x\<in>set evs. False"
    using dt_window_empty[OF assms(4)] unfolding se by blast
  then have evs: "evs = []" by (cases evs) auto
  have "dt_le s e = Inr False" unfolding se by (rule dt_lt_not_le[OF assms(4)])
  then have "walk_days (group_by_date evs Map.empty) e s starting_bal [] = Some (Inr ([], starting_bal))"
    by (subst walk_days.simps) simp
  with w have "points = []" "final = starting_bal" by simp_all
  with r evs show ?thesis by simp
qed

theorem C3_inverted_window_gives_empty_timeline_witness:
  "parser_ok (parser_of [(''2025-01-03'', ymd 2025 1 3), (''2025-01-01'', ymd 2025 1 1),
                   (''2025-01-02'', ymd 2025 1 2)])
   \<and> dt_lt (ymd 2025 1 1) (ymd 2025 1 3) = Inr True
   \<and> (\<exists>r. calculate_balance_timeline
       (parser_of [(''2025-01-03'', ymd 2025 1 3), (''2025-01-01'', ymd 2025 1 1),
                   (''2025-01-02'', ymd 2025 1 2)])
       [one_off ''2025-01-02'' (-50) []] ''2025-01-03'' ''2025-01-01'' (12345 / 1000) None = Some (Inr r)
       \<and> timeline r = [] \<and> events r = [] \<and> ending_balance r = round2 (12345 / 1000))"
proof -
  let ?f = "parser_of [(''2025-01-03'', ymd 2025 1 3), (''2025-01-01'', ymd 2025 1 1),
                   (''2025-01-02'', ymd 2025 1 2)]"
  have ok: "parser_ok ?f" by (rule parser_of_ok) code_simp
  have s: "?f ''2025-01-03'' = Inr (ymd 2025 1 3)" and e: "?f ''2025-01-01'' = Inr (ymd 2025 1 1)"
    by code_simp+
  have lt: "dt_lt (ymd 2025 1 1) (ymd 2025 1 3) = Inr True" by code_simp
  have "calculate_balance_timeline ?f [one_off ''2025-01-02'' (-50) []]
      ''2025-01-03'' ''2025-01-01'' (12345 / 1000) None
    = Some (Inr \<lparr>timeline = [], events = [], starting_balance = 12345 / 1000,
                   ending_balance = 617 / 50\<rparr>)"
    by code_simp
  then obtain r where r: "calculate_balance_timeline ?f [one_off ''2025-01-02'' (-50) []]
      ''2025-01-03'' ''2025-01-01'' (12345 / 1000) None = Some (Inr r)" by blast
  from C3_inverted_window_gives_empty_timeline[OF ok s e lt r]
  have "timeline r = [] \<and> events r = [] \<and> ending_balance r = round2 (12345 / 1000)" by simp
  with ok lt r show ?thesis by blast
qed

section \<open>The label filter (claim C8)\<close>

lemma collect_occurrences_no_filter:
  "collect_occurrences f (Some []) s t evs acc = collect_occurrences f None s t evs acc"
  by (induction evs arbitrary: acc) (simp_all add: label_skipped_def split: option.splits sum.splits)

lemma collect_occurrences_filter:
  assumes "lf \<noteq> []"
  shows "collect_occurrences f (Some lf) s t evs acc
     = collect_occurrences f None s t (filter (\<lambda>ev. \<exists>label\<in>set lf. label \<in> set (labels ev)) evs) acc"
proof (induction evs arbitrary: acc)
  case Nil
  show ?case by simp
next
  case (Cons ev evs)
  have sk: "label_skipped (Some lf) ev = (\<not> (\<exists>label\<in>set lf. label \<in> set (labels ev)))"
    using assms by (simp add: label_skipped_def list_ex_iff)
  have nsk: "\<not> label_skipped None ev" by (simp add: label_skipped_def)
  show ?case
  proof (cases "\<exists>label\<in>set lf. label \<in> set (labels ev)")
    case False
    then show ?thesis using sk Cons.IH by simp
  next
    case True
    then show ?thesis using sk nsk Cons.IH by (simp split: option.splits sum.splits)
  qed
qed

text \<open>
  Claim C8: a query with a non-empty list of labels returns what the query without filter
  returns on the events that carry at least one of the listed labels, so an event takes
  part exactly if it carries one of them (OR, not AND); and a query with the empty list
  returns what the query without filter returns. The same holds for the timeline.
\<close>

theorem C8_label_filter_or_semantics:
  "get_events_in_range fromisoformat db start_date end_date (Some [])
     = get_events_in_range fromisoformat db start_date end_date None
   \<and> calculate_balance_timeline fromisoformat db start_date end_date starting_bal (Some [])
     = calculate_balance_timeline fromisoformat db start_date end_date starting_bal None
   \<and> (lf \<noteq> [] \<longrightarrow>
        get_events_in_range fromisoformat db start_date end_date (Some lf)
          = get_events_in_range fromisoformat
              (filter (\<lambda>ev. \<exists>label\<in>set lf. label \<in> set (labels ev)) db) start_date end_date None
        \<and> calculate_balance_timeline fromisoformat db start_date end_date starting_bal (Some lf)
          = calculate_balance_timeline fromisoformat
              (filter (\<lambda>ev. \<exists>label\<in>set lf. label \<in> set (labels ev)) db) start_date end_date
              starting_bal None)"
proof -
  have a: "get_events_in_range fromisoformat db start_date end_date (Some [])
     = get_events_in_range fromisoformat db start_date end_date None"
    unfolding get_events_in_range_def collect_occurrences_no_filter ..
  have b: "get_events_in_range fromisoformat db start_date end_date (Some lf)
          = get_events_in_range fromisoformat
              (filter (\<lambda>ev. \<exists>label\<in>set lf. label \<in> set (labels ev)) db) start_date end_date None"
    if "lf \<noteq> []"
    unfolding get_events_in_range_def collect_occurrences_filter[OF that] ..
  have c: "calculate_balance_timeline fromisoformat db start_date end_date starting_bal (Some [])
     = calculate_balance_timeline fromisoformat db start_date end_date starting_bal None"
    unfolding calculate_balance_timeline_def a ..
  have d: "calculate_balance_timeline fromisoformat db start_date end_date starting_bal (Some lf)
          = calculate_balance_timeline fromisoformat
              (filter (\<lambda>ev. \<exists>label\<in>set lf. label \<in> set (labels ev)) db) start_date end_date
              starting_bal None"
    if "lf \<noteq> []"
    unfolding calculate_balance_timeline_def b[OF that] ..
  from a b c d show ?thesis by blast
qed

theorem C8_label_filter_or_semantics_witness:
  "[''food'', ''rent''] \<noteq> ([] :: string list)
   \<and> occurrence_dates (get_events_in_range
        (parser_of [(''2025-01-01'', ymd 2025 1 1), (''2025-01-31'', ymd 2025 1 31),
           (''2025-01-05'', ymd 2025 1 5), (''2025-01-06'', ymd 2025 1 6), (''2025-01-07'', ymd 2025 1 7)])
        [one_off ''2025-01-05'' (-900) [''rent''], one_off ''2025-01-06'' (-20) [''food'', ''fun''],
         one_off ''2025-01-07'' (-30) [''fun''], one_off ''2025-01-07'' (-40) []]
        ''2025-01-01'' ''2025-01-31'' (Some [''food'', ''rent'']))
      = Some [''2025-01-05'', ''2025-01-06'']
   \<and> occurrence_dates (get_events_in_range
        (parser_of [(''2025-01-01'', ymd 2025 1 1), (''2025-01-31'', ymd 2025 1 31),
           (''2025-01-05'', ymd 2025 1 5), (''2025-01-06'', ymd 2025 1 6), (''2025-01-07'', ymd 2025 1 7)])
        (filter (\<lambda>ev. \<exists>label\<in>set [''food'', ''rent'']. label \<in> set (labels ev))
          [one_off ''2025-01-05'' (-900) [''rent''], one_off ''2025-01-06'' (-20) [''food'', ''fun''],
           one_off ''2025-01-07'' (-30) [''fun''], one_off ''2025-01-07'' (-40) []])
        ''2025-01-01'' ''2025-01-31'' None)
      = Some [''2025-01-05'', ''2025-01-06'']"
proof -
  let ?f = "parser_of [(''2025-01-01'', ymd 2025 1 1), (''2025-01-31'', ymd 2025 1 31),
           (''2025-01-05'', ymd 2025 1 5), (''2025-01-06'', ymd 2025 1 6), (''2025-01-07'', ymd 2025 1 7)]"
  let ?db = "[one_off ''2025-01-05'' (-900) [''rent''], one_off ''2025-01-06'' (-20) [''food'', ''fun''],
         one_off ''2025-01-07'' (-30) [''fun''], one_off ''2025-01-07'' (-40) []]"
  have n: "[''food'', ''rent''] \<noteq> ([] :: string list)" by simp
  have e: "occurrence_dates (get_events_in_range ?f ?db ''2025-01-01'' ''2025-01-31''
      (Some [''food'', ''rent''])) = Some [''2025-01-05'', ''2025-01-06'']"
    by code_simp
  from C8_label_filter_or_semantics[where lf = "[''food'', ''rent'']" and fromisoformat = ?f
      and db = ?db and start_date = "''2025-01-01''" and end_date = "''2025-01-31''"] n
  have "get_events_in_range ?f ?db ''2025-01-01'' ''2025-01-31'' (Some [''food'', ''rent''])
      = get_events_in_range ?f
          (filter (\<lambda>ev. \<exists>label\<in>set [''food'', ''rent'']. label \<in> set (labels ev)) ?db)
          ''2025-01-01'' ''2025-01-31'' None"
    by blast
  with e have "occurrence_dates (get_events_in_range ?f
          (filter (\<lambda>ev. \<exists>label\<in>set [''food'', ''rent'']. label \<in> set (labels ev)) ?db)
          ''2025-01-01'' ''2025-01-31'' None) = Some [''2025-01-05'', ''2025-01-06'']"
    by simp
  with n e show ?thesis by blast
qed

section \<open>The day number orders the dates\<close>










section \<open>The loop over the days\<close>

lemma shift_days_Suc: "shift_days (1 + int k) d = shift_days (int k) (next_day d)"
  by (subst shift_days.simps) simp


lemma add_days_1:
  assumes "add_days d 1 = Inr nxt" "valid_datetime d"
  shows "nxt = next_day d" "valid_datetime nxt" "instant nxt = instant d + day_us"
    "date_rank d < date_rank nxt"
proof -
  have wf: "wf_date d" using assms(2) by (rule valid_datetime_wf)
  show n: "nxt = next_day d" using add_days_Inr(1)[OF assms] by (simp add: shift_days_1)
  show v: "valid_datetime nxt" by (rule add_days_Inr(2)[OF assms])
  show "instant nxt = instant d + day_us"
    using add_days_Inr(3,4,5)[OF assms] by (simp add: instant_def algebra_simps)
  show "date_rank d < date_rank nxt"
    using next_day_gt[OF wf] date_rank_less[OF wf valid_datetime_wf[OF v]] n by simp
qed





lemma walk_days_total:
  "valid_datetime cur \<Longrightarrow> \<exists>r. walk_days ebd e cur bal pts = Some r"
proof (induction "nat (4000000 - date_rank cur)" arbitrary: cur bal pts rule: less_induct)
  case less
  note step = walk_days.simps[of ebd e cur bal pts]
  show ?case
  proof (cases "\<exists>nxt. dt_le cur e = Inr True \<and> add_days cur 1 = Inr nxt")
    case False
    then have "(\<exists>err. walk_days ebd e cur bal pts = Some (Inl err))
        \<or> walk_days ebd e cur bal pts = Some (Inr (pts, bal))"
      unfolding step by (auto simp: Let_def split: sum.splits)
    then show ?thesis by auto
  next
    case True
    then obtain nxt where c: "dt_le cur e = Inr True" and a: "add_days cur 1 = Inr nxt" by blast
    note n = add_days_1[OF a less.prems]
    have "nat (4000000 - date_rank nxt) < nat (4000000 - date_rank cur)"
      using n(4) date_rank_range[OF n(2)] by simp
    from less.hyps[OF this n(2)] show ?thesis
      unfolding step by (simp add: c a Let_def)
  qed
qed




section \<open>The days of the timeline (claim C6)\<close>




end
